theory Spec2Isabelle
  imports Main "HOL-Library.Multiset" "HOL-Library.Product_Lexorder"
begin

section \<open>The block parser: \<open>parseSummary\<close> of server/index.ts\<close>

subsection \<open>JavaScript strings\<close>

text \<open>
  A JavaScript string is a sequence of UTF-16 code units; the model keeps each code unit
  as its number. \<open>js\<close> writes a literal: \<open>js ''0:01''\<close> is the string \<open>"0:01"\<close>.
\<close>

type_synonym jsstring = "nat list"

definition js :: "string \<Rightarrow> jsstring" where
  "js s = map of_char s"

text \<open>
  The code units that \<open>String.prototype.trim\<close> strips and that \<open>\s\<close> matches in a
  regular expression: WhiteSpace and LineTerminator of ECMAScript (TAB, LF, VT, FF, CR,
  SPACE, NBSP, U+1680, U+2000..U+200A, U+2028, U+2029, U+202F, U+205F, U+3000, U+FEFF).
\<close>

definition is_space :: "nat \<Rightarrow> bool" where
  "is_space c \<longleftrightarrow>
     c = 9 \<or> c = 10 \<or> c = 11 \<or> c = 12 \<or> c = 13 \<or> c = 32 \<or> c = 160 \<or> c = 5760 \<or>
     (8192 \<le> c \<and> c \<le> 8202) \<or> c = 8232 \<or> c = 8233 \<or> c = 8239 \<or> c = 8287 \<or>
     c = 12288 \<or> c = 65279"

text \<open>\<open>\d\<close>: the ten ASCII digits.\<close>

definition is_digit :: "nat \<Rightarrow> bool" where
  "is_digit c \<longleftrightarrow> 48 \<le> c \<and> c \<le> 57"

text \<open>\<open>s.trim()\<close>\<close>

definition trim :: "jsstring \<Rightarrow> jsstring" where
  "trim s = rev (dropWhile is_space (rev (dropWhile is_space s)))"

text \<open>\<open>s.split("\n")\<close>: the empty string splits into one empty line.\<close>

fun split_lines :: "jsstring \<Rightarrow> jsstring list" where
  "split_lines [] = [[]]"
| "split_lines (c # cs) =
     (if c = 10 then [] # split_lines cs
      else (case split_lines cs of
              [] \<Rightarrow> [[c]]
            | l # ls \<Rightarrow> (c # l) # ls))"

text \<open>\<open>s.startsWith(p)\<close>\<close>

definition startsWith :: "jsstring \<Rightarrow> jsstring \<Rightarrow> bool" where
  "startsWith s p \<longleftrightarrow> take (length p) s = p"

text \<open>
  \<open>s.indexOf(m)\<close>: the position of the first occurrence of \<open>m\<close> in \<open>s\<close>, or \<open>-1\<close>.
\<close>

fun find_sub :: "jsstring \<Rightarrow> jsstring \<Rightarrow> nat option" where
  "find_sub m [] = (if m = [] then Some 0 else None)"
| "find_sub m (c # cs) =
     (if startsWith (c # cs) m then Some 0 else map_option Suc (find_sub m cs))"

definition indexOf :: "jsstring \<Rightarrow> jsstring \<Rightarrow> int" where
  "indexOf s m = (case find_sub m s of None \<Rightarrow> - 1 | Some i \<Rightarrow> int i)"

text \<open>\<open>s.substring(n)\<close>: a negative start counts as 0, one past the end as the end.\<close>

definition substring :: "jsstring \<Rightarrow> int \<Rightarrow> jsstring" where
  "substring s n = drop (nat n) s"

text \<open>
  The regular expression \<open>/(\d+:\d+(?::\d+)?)/\<close> tried at the start of \<open>s\<close>. Each
  \<open>\d+\<close> is greedy and what follows it is a colon or nothing, so the longest run of
  digits is the only one that can match: giving digits back never helps.
  The result is the matched text (group 0, which is also group 1).
\<close>

definition match_here :: "jsstring \<Rightarrow> jsstring option" where
  "match_here s =
     (let d1 = takeWhile is_digit s; r1 = dropWhile is_digit s in
      if d1 = [] then None
      else (case r1 of
              [] \<Rightarrow> None
            | c # r \<Rightarrow>
                if c \<noteq> 58 then None
                else (let d2 = takeWhile is_digit r; r2 = dropWhile is_digit r in
                      if d2 = [] then None
                      else (case r2 of
                              [] \<Rightarrow> Some (d1 @ [58] @ d2)
                            | c' # r' \<Rightarrow>
                                (let d3 = takeWhile is_digit r' in
                                 if c' = 58 \<and> d3 \<noteq> [] then Some (d1 @ [58] @ d2 @ [58] @ d3)
                                 else Some (d1 @ [58] @ d2))))))"

text \<open>\<open>line.match(/(\d+:\d+(?::\d+)?)/)\<close>: the leftmost match, \<open>None\<close> for \<open>null\<close>.\<close>

fun match_timestamp :: "jsstring \<Rightarrow> jsstring option" where
  "match_timestamp [] = None"
| "match_timestamp (c # cs) =
     (case match_here (c # cs) of
        Some m \<Rightarrow> Some m
      | None \<Rightarrow> match_timestamp cs)"

text \<open>\<open>s.replace(/^[:\s-]+/, "")\<close>\<close>

definition strip_separators :: "jsstring \<Rightarrow> jsstring" where
  "strip_separators s = dropWhile (\<lambda>c. c = 58 \<or> is_space c \<or> c = 45) s"

text \<open>
  \<open>t.match(/^#{1,6}\s/)\<close>, as a truth value: the run of \<open>#\<close> at the start has between
  one and six characters and a whitespace character follows it.
\<close>

definition is_heading :: "jsstring \<Rightarrow> bool" where
  "is_heading t =
     (let n = length (takeWhile (\<lambda>c. c = 35) t) in
      1 \<le> n \<and> n \<le> 6 \<and> (case drop n t of [] \<Rightarrow> False | c # _ \<Rightarrow> is_space c))"

subsection \<open>The scan\<close>

record SummaryPoint =
  timestamp :: jsstring
  point :: jsstring

text \<open>The variables of the loop: the result so far and the four context variables.\<close>

record scan_state =
  summaryPoints :: "SummaryPoint list"
  currentTimestamp :: jsstring
  currentPoint :: jsstring
  inCodeBlock :: bool
  emptyLineCount :: nat

definition initial_state :: scan_state where
  "initial_state =
     \<lparr>summaryPoints = [], currentTimestamp = [], currentPoint = [],
      inCodeBlock = False, emptyLineCount = 0\<rparr>"

text \<open>
  \<open>if (currentPoint.trim().length > 0) summaryPoints.push({timestamp: currentTimestamp,
  point: currentPoint.trim()})\<close>, which the loop body has twice and the end of the scan
  once.
\<close>

definition push_point :: "scan_state \<Rightarrow> scan_state" where
  "push_point st =
     st\<lparr>summaryPoints := summaryPoints st @
          [\<lparr>timestamp = currentTimestamp st, point = trim (currentPoint st)\<rparr>]\<rparr>"

definition push_if_content :: "scan_state \<Rightarrow> scan_state" where
  "push_if_content st = (if trim (currentPoint st) \<noteq> [] then push_point st else st)"

text \<open>
  The body of the \<open>for\<close> loop at line \<open>lines[i]\<close>; \<open>rest\<close> is the lines after it. The
  result is the new state and whether the body did \<open>i++\<close> (the timestamp branch takes
  the next line as the body of the point). The branches are in the order of the source:
  fence line, inside a fenced block, blank line, timestamp, heading, other text.
\<close>

definition process_line :: "scan_state \<Rightarrow> jsstring \<Rightarrow> jsstring list \<Rightarrow> scan_state \<times> bool" where
  "process_line st line rest =
     (if startsWith (trim line) (js ''```'') then
        (st\<lparr>inCodeBlock := \<not> inCodeBlock st,
            currentPoint := currentPoint st @ line @ [10]\<rparr>, False)
      else if inCodeBlock st then
        (st\<lparr>currentPoint := currentPoint st @ line @ [10]\<rparr>, False)
      else if trim line = [] then
        (let st1 = st\<lparr>emptyLineCount := emptyLineCount st + 1,
                       currentPoint := currentPoint st @ [10]\<rparr> in
         if emptyLineCount st1 > 1 \<and> trim (currentPoint st1) \<noteq> [] then
           ((push_point st1)\<lparr>currentPoint := []\<rparr>, False)
         else (st1, False))
      else
        (let st0 = st\<lparr>emptyLineCount := 0\<rparr> in
         case match_timestamp line of
           Some m \<Rightarrow>
             (let st1 = (push_if_content st0)\<lparr>currentTimestamp := m\<rparr>;
                  contentAfterTimestamp = substring line (indexOf line m + int (length m))
              in if trim contentAfterTimestamp \<noteq> [] then
                   (st1\<lparr>currentPoint := trim (strip_separators contentAfterTimestamp) @ [10]\<rparr>,
                    False)
                 else (case rest of
                         [] \<Rightarrow> (st1\<lparr>currentPoint := [10]\<rparr>, False)
                       | nxt # _ \<Rightarrow>
                           if trim nxt \<noteq> [] then (st1\<lparr>currentPoint := trim nxt @ [10]\<rparr>, True)
                           else (st1\<lparr>currentPoint := [10]\<rparr>, False)))
         | None \<Rightarrow>
             if is_heading (trim line) then
               ((push_if_content st0)\<lparr>currentPoint := line @ [10]\<rparr>, False)
             else (st0\<lparr>currentPoint := currentPoint st0 @ line @ [10]\<rparr>, False)))"

text \<open>The loop over the lines; after \<open>i++\<close> in the body the next line is skipped.\<close>

function scan :: "scan_state \<Rightarrow> jsstring list \<Rightarrow> scan_state" where
  "scan st [] = st"
| "scan st (line # rest) =
     (case process_line st line rest of
        (st', skip) \<Rightarrow> scan st' (if skip then tl rest else rest))"
  by pat_completeness auto
termination
  by (relation "measure (\<lambda>(st, ls). length ls)") auto

text \<open>
  \<open>parseSummary\<close>. The parameter has type \<open>string\<close>, so \<open>!summary\<close> is true for the
  empty string only. Nothing in the \<open>try\<close> block throws on a string (\<open>trim\<close>,
  \<open>split\<close>, \<open>match\<close>, \<open>indexOf\<close>, \<open>substring\<close>, \<open>replace\<close> and \<open>push\<close> are total), so
  the \<open>catch\<close> branch has no counterpart here.
\<close>

definition parseSummary :: "jsstring \<Rightarrow> SummaryPoint list" where
  "parseSummary summary =
     (if summary = [] \<or> trim summary = [] then []
      else (let st = push_if_content (scan initial_state (split_lines summary)) in
            if length (summaryPoints st) = 0 \<and> length (trim summary) > 0 then
              [\<lparr>timestamp = [], point = trim summary\<rparr>]
            else summaryPoints st))"

section \<open>The two cache backends\<close>

subsection \<open>Records, the clock and the environment\<close>

text \<open>
  An instant: what \<open>new Date()\<close> reads, in milliseconds since the epoch. Both backends
  store \<open>toISOString()\<close> of it, a text from which the instant is read back exactly (the
  file backend's comparator parses it into a \<open>Date\<close> again and compares the numbers).
  Each operation that reads the clock takes the instant as its argument \<open>now\<close>.
\<close>

type_synonym time = nat

text \<open>
  SQLite compares the stored texts. Up to the year 9999 the text is
  \<open>YYYY-MM-DDTHH:mm:ss.sssZ\<close>; from the year 10000 on it is \<open>+YYYYYY-MM-DD...\<close>, of
  fixed width too, and \<open>+\<close> comes before every digit. So among the texts those of the
  years from 10000 on come first, and within either group the texts are in the order of
  the instants. \<open>text_order t\<close> is the place of the text of \<open>t\<close> in that order, as a
  pair compared lexicographically (\<open>False\<close> before \<open>True\<close>); \<open>year_10000\<close> is the
  instant \<open>+010000-01-01T00:00:00.000Z\<close>.
\<close>

definition year_10000 :: time where
  "year_10000 = 253402300800000"

definition text_order :: "time \<Rightarrow> bool \<times> nat" where
  "text_order t = (t < year_10000, t)"

record SummaryData =
  videoId :: string
  videoUrl :: string
  title :: string
  summary :: string
  style :: string

record SummaryRecord =
  video_id :: string
  video_url :: string
  title :: string
  summary :: string
  style :: string
  created_at :: time
  accessed_at :: time

definition MAX_SUMMARIES :: nat where
  "MAX_SUMMARIES = 100"

text \<open>
  The test \<open>record.video_id === videoId && record.style === style\<close> of the file
  backend, which is the clause \<open>WHERE video_id = ? AND style = ?\<close> of the SQLite one.
\<close>

definition same_key :: "string \<Rightarrow> string \<Rightarrow> SummaryRecord \<Rightarrow> bool" where
  "same_key vid sty r \<longleftrightarrow> video_id r = vid \<and> style r = sty"

text \<open>
  \<open>{video_id: data.videoId, ..., created_at: created, accessed_at: now}\<close>: the record
  (or the row's columns) that \<open>saveSummary\<close> writes.
\<close>

definition newRecord :: "SummaryData \<Rightarrow> time \<Rightarrow> time \<Rightarrow> SummaryRecord" where
  "newRecord data created now =
     \<lparr>video_id = videoId data, video_url = videoUrl data, title = SummaryData.title data,
      summary = SummaryData.summary data, style = SummaryData.style data,
      created_at = created, accessed_at = now\<rparr>"

text \<open>
  An exception is a value. What an operation gives is the value it returns or the exception
  it throws to its caller, and the world after it: the persistent store and the lines
  written with \<open>console.error\<close>. Whether a call into the file system or into SQLite
  fails is not up to the program; each such call takes a flag that says so.
\<close>

datatype error = FsError | SqliteError | TypeError

record 'db world =
  db :: 'db
  console :: "string list"

definition console_error :: "string \<Rightarrow> 'db world \<Rightarrow> 'db world" where
  "console_error msg w = w\<lparr>console := console w @ [msg]\<rparr>"

subsection \<open>The file backend (summaries.json)\<close>

text \<open>
  The store is the file: absent, or holding the \<open>summaries\<close> array.
\<close>

type_synonym json_world = "SummaryRecord list option world"

text \<open>
  What a read of the file does: \<open>readFileSync\<close> and \<open>JSON.parse\<close> give the database
  the file holds; or one of them throws; or they give a value that has no array
  \<open>summaries\<close> (\<open>{}\<close>, \<open>null\<close>, a number), which the cast \<open>as Database\<close> lets
  through unchecked.
\<close>

datatype reading = ReadsDatabase | ReadThrows | ReadsOther

datatype parsed = Database "SummaryRecord list" | Other

text \<open>\<open>JSON.parse(fs.readFileSync(dbPath, "utf8"))\<close>\<close>

definition read_file :: "reading \<Rightarrow> json_world \<Rightarrow> error + parsed" where
  "read_file reading w =
     (case db w of
        None \<Rightarrow> Inl FsError
      | Some summaries \<Rightarrow>
          (case reading of
             ReadsDatabase \<Rightarrow> Inr (Database summaries)
           | ReadThrows \<Rightarrow> Inl FsError
           | ReadsOther \<Rightarrow> Inr Other))"

text \<open>
  \<open>db.summaries\<close> with a method called on it (\<open>some\<close>, \<open>find\<close>, \<open>findIndex\<close>, the
  spread): a \<open>TypeError\<close> when the value has no such array.
\<close>

definition summaries_of :: "parsed \<Rightarrow> error + SummaryRecord list" where
  "summaries_of data = (case data of Database summaries \<Rightarrow> Inr summaries | Other \<Rightarrow> Inl TypeError)"

text \<open>\<open>fs.writeFileSync(dbPath, JSON.stringify(data, null, 2), "utf8")\<close>\<close>

definition write_file :: "bool \<Rightarrow> SummaryRecord list \<Rightarrow> json_world \<Rightarrow> error + json_world" where
  "write_file fails summaries w =
     (if fails then Inl FsError else Inr (w\<lparr>db := Some summaries\<rparr>))"

definition readDatabase :: "reading \<Rightarrow> json_world \<Rightarrow> parsed \<times> json_world" where
  "readDatabase reading w =
     (if db w = None then (Database [], w)
      else (case read_file reading w of
              Inr data \<Rightarrow> (data, w)
            | Inl e \<Rightarrow> (Database [], console_error ''Error reading database file:'' w)))"

definition writeDatabase :: "bool \<Rightarrow> SummaryRecord list \<Rightarrow> json_world \<Rightarrow> json_world" where
  "writeDatabase fails summaries w =
     (case write_file fails summaries w of
        Inr w' \<Rightarrow> w'
      | Inl e \<Rightarrow> console_error ''Error writing to database file:'' w)"

text \<open>
  \<open>Array.prototype.findIndex\<close>, with \<open>None\<close> for \<open>-1\<close>. \<open>Array.prototype.find\<close>
  returns the element at that index, the very object the array holds.
\<close>

fun findIndex :: "('a \<Rightarrow> bool) \<Rightarrow> 'a list \<Rightarrow> nat option" where
  "findIndex P [] = None"
| "findIndex P (x # xs) = (if P x then Some 0 else map_option Suc (findIndex P xs))"

text \<open>
  None of the four operations of this backend has a \<open>try\<close> of its own: the
  \<open>TypeError\<close> goes to the caller.
\<close>

definition checkSummaryExists_json ::
  "reading \<Rightarrow> string \<Rightarrow> string \<Rightarrow> json_world \<Rightarrow> (error + bool) \<times> json_world" where
  "checkSummaryExists_json reading vid sty w =
     (case readDatabase reading w of
        (data, w1) \<Rightarrow>
          (case summaries_of data of
             Inl e \<Rightarrow> (Inl e, w1)
           | Inr summaries \<Rightarrow> (Inr (list_ex (same_key vid sty) summaries), w1)))"

text \<open>
  \<open>record.accessed_at = ...\<close> assigns to the object inside the array that was read, so
  the array written back has the new instant at that index, and the object returned is
  the updated one.
\<close>

definition getCachedSummary_json ::
  "reading \<Rightarrow> bool \<Rightarrow> time \<Rightarrow> string \<Rightarrow> string \<Rightarrow> json_world
     \<Rightarrow> (error + SummaryRecord option) \<times> json_world" where
  "getCachedSummary_json reading write_fails now vid sty w =
     (case readDatabase reading w of
        (data, w1) \<Rightarrow>
          (case summaries_of data of
             Inl e \<Rightarrow> (Inl e, w1)
           | Inr summaries \<Rightarrow>
               (case findIndex (same_key vid sty) summaries of
                  None \<Rightarrow> (Inr None, w1)
                | Some i \<Rightarrow>
                    (let record = (summaries ! i)\<lparr>accessed_at := now\<rparr> in
                     (Inr (Some record),
                      writeDatabase write_fails (summaries[i := record]) w1)))))"

text \<open>
  What \<open>saveSummary\<close> does to the array between reading and writing it. The comparator
  of \<open>sort\<close> is the difference of the instants and the sort is stable, which
  \<open>sort_key\<close> is too; \<open>slice(n)\<close> drops the first \<open>n\<close> elements.
\<close>

definition upsert :: "time \<Rightarrow> SummaryData \<Rightarrow> SummaryRecord list \<Rightarrow> SummaryRecord list" where
  "upsert now data summaries =
     (case findIndex (same_key (videoId data) (SummaryData.style data)) summaries of
        Some existingIndex \<Rightarrow>
          summaries[existingIndex :=
            newRecord data (created_at (summaries ! existingIndex)) now]
      | None \<Rightarrow>
          (let pushed = summaries @ [newRecord data now now] in
           if length pushed > MAX_SUMMARIES then
             (let sorted = sort_key accessed_at pushed in
              drop (length sorted - MAX_SUMMARIES) sorted)
           else pushed))"

definition saveSummary_json ::
  "reading \<Rightarrow> bool \<Rightarrow> time \<Rightarrow> SummaryData \<Rightarrow> json_world \<Rightarrow> (error + unit) \<times> json_world" where
  "saveSummary_json reading write_fails now data w =
     (case readDatabase reading w of
        (data_read, w1) \<Rightarrow>
          (case summaries_of data_read of
             Inl e \<Rightarrow> (Inl e, w1)
           | Inr summaries \<Rightarrow>
               (Inr (), writeDatabase write_fails (upsert now data summaries) w1)))"

text \<open>
  The comparator is the difference the other way round: most recent first, equal instants
  in the order of the array. \<open>limit\<close> is a count (100 at the one call in the server,
  10 by default).
\<close>

definition getRecentSummaries_json ::
  "reading \<Rightarrow> nat \<Rightarrow> json_world \<Rightarrow> (error + SummaryRecord list) \<times> json_world" where
  "getRecentSummaries_json reading limit w =
     (case readDatabase reading w of
        (data, w1) \<Rightarrow>
          (case summaries_of data of
             Inl e \<Rightarrow> (Inl e, w1)
           | Inr summaries \<Rightarrow>
               (Inr (take limit (sort_key (\<lambda>r. - int (accessed_at r)) summaries)), w1)))"

text \<open>The store after \<open>initializeDatabase\<close> on a fresh directory.\<close>

definition empty_json :: json_world where
  "empty_json = \<lparr>db = Some [], console = []\<rparr>"

text \<open>The records a reader of the file backend sees.\<close>

definition records_json :: "json_world \<Rightarrow> SummaryRecord list" where
  "records_json w = (case db w of None \<Rightarrow> [] | Some summaries \<Rightarrow> summaries)"

subsection \<open>The SQLite backend (summaries.db)\<close>

text \<open>
  The table \<open>summaries\<close>: its rows, each the \<open>id\<close> and the other columns, in the order
  of \<open>id\<close>, and the largest \<open>id\<close> ever given (\<open>AUTOINCREMENT\<close>). The constraint
  \<open>UNIQUE(video_id, style)\<close> is what \<open>INSERT OR REPLACE\<close> resolves.
\<close>

type_synonym row = "nat \<times> SummaryRecord"

record table =
  rows :: "row list"
  last_id :: nat

type_synonym sqlite_world = "table world"

text \<open>\<open>SELECT COUNT(*) as count FROM summaries WHERE video_id = ? AND style = ?\<close>\<close>

definition count_where :: "string \<Rightarrow> string \<Rightarrow> table \<Rightarrow> nat" where
  "count_where vid sty t = length (filter (\<lambda>(i, r). same_key vid sty r) (rows t))"

text \<open>
  \<open>SELECT * FROM summaries WHERE video_id = ? AND style = ?\<close>, of which \<open>stmt.get\<close>
  returns the first row, with all its columns, \<open>id\<close> among them (the cast
  \<open>as SummaryRecord\<close> takes nothing away).
\<close>

definition select_where :: "string \<Rightarrow> string \<Rightarrow> table \<Rightarrow> row option" where
  "select_where vid sty t = find (\<lambda>(i, r). same_key vid sty r) (rows t)"

text \<open>\<open>UPDATE summaries SET accessed_at = ? WHERE video_id = ? AND style = ?\<close>\<close>

definition update_accessed_at :: "time \<Rightarrow> string \<Rightarrow> string \<Rightarrow> table \<Rightarrow> table" where
  "update_accessed_at now vid sty t =
     t\<lparr>rows := map (\<lambda>(i, r). if same_key vid sty r then (i, r\<lparr>accessed_at := now\<rparr>) else (i, r))
                  (rows t)\<rparr>"

text \<open>
  \<open>INSERT OR REPLACE INTO summaries (...) VALUES (?, ?, ?, ?, ?, COALESCE((SELECT
  created_at FROM summaries WHERE video_id = ? AND style = ?), ?), ?)\<close>. The values are
  computed first, so \<open>created_at\<close> is the one of the row with that key when there is one
  and \<open>now\<close> otherwise. Then the row that conflicts on the key is deleted and the new row
  is inserted under a new \<open>id\<close>, one more than the largest ever given.
\<close>

definition insert_or_replace :: "time \<Rightarrow> SummaryData \<Rightarrow> table \<Rightarrow> table" where
  "insert_or_replace now data t =
     (let vid = videoId data; sty = SummaryData.style data;
          created = (case select_where vid sty t of
                       Some (i, existing) \<Rightarrow> created_at existing
                     | None \<Rightarrow> now)
      in \<lparr>rows = filter (\<lambda>(i, r). \<not> same_key vid sty r) (rows t) @
                  [(last_id t + 1, newRecord data created now)],
          last_id = last_id t + 1\<rparr>)"

text \<open>\<open>SELECT COUNT(*) as count FROM summaries\<close>\<close>

definition count_all :: "table \<Rightarrow> nat" where
  "count_all t = length (rows t)"

text \<open>
  \<open>SELECT ... FROM summaries ORDER BY accessed_at ASC\<close> and \<open>... DESC\<close>: the rows in
  the order of the stored texts, and in the reverse of it. SQL leaves the order among rows
  of equal \<open>accessed_at\<close> to the engine; here they stay in the order the table is scanned
  in, that of \<open>id\<close>, in both.
\<close>

definition order_by_accessed_at_asc :: "table \<Rightarrow> row list" where
  "order_by_accessed_at_asc t = sort_key (\<lambda>(i, r). text_order (accessed_at r)) (rows t)"

definition order_by_accessed_at_desc :: "table \<Rightarrow> row list" where
  "order_by_accessed_at_desc t =
     rev (sort_key (\<lambda>(i, r). text_order (accessed_at r)) (rev (rows t)))"

text \<open>
  \<open>DELETE FROM summaries WHERE id IN (SELECT id FROM summaries ORDER BY accessed_at ASC
  LIMIT ?)\<close>
\<close>

definition delete_oldest :: "nat \<Rightarrow> table \<Rightarrow> table" where
  "delete_oldest n t =
     (let ids = map fst (take n (order_by_accessed_at_asc t))
      in t\<lparr>rows := filter (\<lambda>(i, r). i \<notin> set ids) (rows t)\<rparr>)"

text \<open>\<open>SELECT * FROM summaries ORDER BY accessed_at DESC LIMIT ?\<close>\<close>

definition select_recent :: "nat \<Rightarrow> table \<Rightarrow> row list" where
  "select_recent limit t = take limit (order_by_accessed_at_desc t)"

text \<open>
  \<open>checkSummaryExists\<close>, \<open>getCachedSummary\<close> and \<open>getRecentSummaries\<close> have no
  \<open>try\<close>: a statement that fails throws to the caller.
\<close>

definition checkSummaryExists_sqlite ::
  "bool \<Rightarrow> string \<Rightarrow> string \<Rightarrow> sqlite_world \<Rightarrow> (error + bool) \<times> sqlite_world" where
  "checkSummaryExists_sqlite select_fails vid sty w =
     (if select_fails then (Inl SqliteError, w)
      else (Inr (count_where vid sty (db w) > 0), w))"

text \<open>The record returned is the row as it was selected, before the update.\<close>

definition getCachedSummary_sqlite ::
  "bool \<Rightarrow> bool \<Rightarrow> time \<Rightarrow> string \<Rightarrow> string \<Rightarrow> sqlite_world
     \<Rightarrow> (error + row option) \<times> sqlite_world" where
  "getCachedSummary_sqlite select_fails update_fails now vid sty w =
     (if select_fails then (Inl SqliteError, w)
      else (case select_where vid sty (db w) of
              None \<Rightarrow> (Inr None, w)
            | Some record \<Rightarrow>
                if update_fails then (Inl SqliteError, w)
                else (Inr (Some record), w\<lparr>db := update_accessed_at now vid sty (db w)\<rparr>)))"

text \<open>
  The \<open>try\<close> block of \<open>saveSummary\<close>: three statements, each committed on its own. One
  that fails throws and leaves the table as the statements before it made it.
\<close>

definition saveSummary_try ::
  "bool \<Rightarrow> bool \<Rightarrow> bool \<Rightarrow> time \<Rightarrow> SummaryData \<Rightarrow> sqlite_world
     \<Rightarrow> (error + unit) \<times> sqlite_world" where
  "saveSummary_try insert_fails count_fails delete_fails now data w =
     (if insert_fails then (Inl SqliteError, w)
      else (let w1 = w\<lparr>db := insert_or_replace now data (db w)\<rparr> in
            if count_fails then (Inl SqliteError, w1)
            else (let count = count_all (db w1) in
                  if count > MAX_SUMMARIES then
                    (if delete_fails then (Inl SqliteError, w1)
                     else (Inr (), w1\<lparr>db := delete_oldest (count - MAX_SUMMARIES) (db w1)\<rparr>))
                  else (Inr (), w1))))"

text \<open>\<open>saveSummary\<close>: the \<open>try\<close> block and its \<open>catch\<close>, which logs and returns.\<close>

definition saveSummary_sqlite ::
  "bool \<Rightarrow> bool \<Rightarrow> bool \<Rightarrow> time \<Rightarrow> SummaryData \<Rightarrow> sqlite_world
     \<Rightarrow> (error + unit) \<times> sqlite_world" where
  "saveSummary_sqlite insert_fails count_fails delete_fails now data w =
     (case saveSummary_try insert_fails count_fails delete_fails now data w of
        (Inl e, w') \<Rightarrow> (Inr (), console_error ''Error saving summary to SQLite database:'' w')
      | (Inr u, w') \<Rightarrow> (Inr u, w'))"

definition getRecentSummaries_sqlite ::
  "bool \<Rightarrow> nat \<Rightarrow> sqlite_world \<Rightarrow> (error + row list) \<times> sqlite_world" where
  "getRecentSummaries_sqlite select_fails limit w =
     (if select_fails then (Inl SqliteError, w)
      else (Inr (select_recent limit (db w)), w))"

text \<open>The store after \<open>initializeDatabase\<close> on a fresh directory.\<close>

definition empty_sqlite :: sqlite_world where
  "empty_sqlite = \<lparr>db = \<lparr>rows = [], last_id = 0\<rparr>, console = []\<rparr>"

text \<open>The records a reader of the SQLite backend sees.\<close>

definition records_sqlite :: "sqlite_world \<Rightarrow> SummaryRecord list" where
  "records_sqlite w = map snd (rows (db w))"

subsection \<open>Runs of operations, and the states they reach\<close>

text \<open>
  The table after the three statements of \<open>saveSummary\<close> when none of them fails.
\<close>

definition saved_table :: "time \<Rightarrow> SummaryData \<Rightarrow> table \<Rightarrow> table" where
  "saved_table now data t =
     (let t1 = insert_or_replace now data t; count = count_all t1 in
      if count > MAX_SUMMARIES then delete_oldest (count - MAX_SUMMARIES) t1 else t1)"

text \<open>
  A call of one of the four operations of a backend, and what it returned. In a run every
  call comes with the instant its \<open>new Date()\<close> reads, and no call into the file system
  or into SQLite fails.
\<close>

datatype op = Exists string string | Get string string | Put SummaryData | ListRecent nat

text \<open>
  The records that the file backend returns are \<open>SummaryRecord\<close>s; those that the SQLite
  backend returns are rows, which have the column \<open>id\<close> as well.
\<close>

datatype 'r result = Found bool | Got "'r option" | Saved | Listed "'r list"

fun step_json ::
  "time \<Rightarrow> op \<Rightarrow> json_world \<Rightarrow> (error + SummaryRecord result) \<times> json_world" where
  "step_json now (Exists vid sty) w =
     (case checkSummaryExists_json ReadsDatabase vid sty w of (r, w') \<Rightarrow> (map_sum id Found r, w'))"
| "step_json now (Get vid sty) w =
     (case getCachedSummary_json ReadsDatabase False now vid sty w of (r, w') \<Rightarrow> (map_sum id Got r, w'))"
| "step_json now (Put data) w =
     (case saveSummary_json ReadsDatabase False now data w of (r, w') \<Rightarrow> (map_sum id (\<lambda>u. Saved) r, w'))"
| "step_json now (ListRecent limit) w =
     (case getRecentSummaries_json ReadsDatabase limit w of (r, w') \<Rightarrow> (map_sum id Listed r, w'))"

fun step_sqlite ::
  "time \<Rightarrow> op \<Rightarrow> sqlite_world \<Rightarrow> (error + row result) \<times> sqlite_world" where
  "step_sqlite now (Exists vid sty) w =
     (case checkSummaryExists_sqlite False vid sty w of (r, w') \<Rightarrow> (map_sum id Found r, w'))"
| "step_sqlite now (Get vid sty) w =
     (case getCachedSummary_sqlite False False now vid sty w of (r, w') \<Rightarrow> (map_sum id Got r, w'))"
| "step_sqlite now (Put data) w =
     (case saveSummary_sqlite False False False now data w of
        (r, w') \<Rightarrow> (map_sum id (\<lambda>u. Saved) r, w'))"
| "step_sqlite now (ListRecent limit) w =
     (case getRecentSummaries_sqlite False limit w of (r, w') \<Rightarrow> (map_sum id Listed r, w'))"

fun run_json ::
  "(time \<times> op) list \<Rightarrow> json_world \<Rightarrow> (error + SummaryRecord result) list \<times> json_world" where
  "run_json [] w = ([], w)"
| "run_json ((now, c) # ops) w =
     (case step_json now c w of
        (r, w1) \<Rightarrow> (case run_json ops w1 of (rs, w2) \<Rightarrow> (r # rs, w2)))"

fun run_sqlite ::
  "(time \<times> op) list \<Rightarrow> sqlite_world \<Rightarrow> (error + row result) list \<times> sqlite_world" where
  "run_sqlite [] w = ([], w)"
| "run_sqlite ((now, c) # ops) w =
     (case step_sqlite now c w of
        (r, w1) \<Rightarrow> (case run_sqlite ops w1 of (rs, w2) \<Rightarrow> (r # rs, w2)))"

text \<open>
  What holds of the records of every store that a run reaches, whatever the clock reads: no
  two have the same key, and there are at most \<open>MAX_SUMMARIES\<close>. In a table, moreover,
  no two rows have the same \<open>id\<close> and none is beyond the largest ever given.
\<close>

definition key_of :: "SummaryRecord \<Rightarrow> string \<times> string" where
  "key_of r = (video_id r, style r)"

definition wf_records :: "SummaryRecord list \<Rightarrow> bool" where
  "wf_records xs \<longleftrightarrow> distinct (map key_of xs) \<and> length xs \<le> MAX_SUMMARIES"

definition wf_table :: "table \<Rightarrow> bool" where
  "wf_table tb \<longleftrightarrow>
     distinct (map fst (rows tb)) \<and> list_all (\<lambda>i. i \<le> last_id tb) (map fst (rows tb)) \<and>
     wf_records (map snd (rows tb))"



text \<open>
  For the examples: the summary of the video number \<open>k\<close> (its \<open>videoId\<close> is \<open>k\<close>
  letters \<open>v\<close>), and \<open>saveSummary\<close> called for the videos \<open>0\<close> to \<open>n - 1\<close>, in
  this order, all at the instant \<open>t\<close>.
\<close>

definition video :: "nat \<Rightarrow> SummaryData" where
  "video k = \<lparr>videoId = replicate k CHR ''v'', videoUrl = ''u'', title = ''t'',
               summary = ''s'', style = ''x''\<rparr>"

definition puts_at :: "time \<Rightarrow> nat \<Rightarrow> (time \<times> op) list" where
  "puts_at t n = map (\<lambda>k. (t, Put (video k))) [0..<n]"

section \<open>Facts about the parser\<close>

subsection \<open>Facts about the string functions and the loop body\<close>

lemmas parser_eval =
  js_def trim_def is_space_def is_digit_def startsWith_def match_here_def indexOf_def
  substring_def strip_separators_def is_heading_def process_line_def initial_state_def
  push_if_content_def push_point_def parseSummary_def

lemma trim_Nil_iff: "trim s = [] \<longleftrightarrow> (\<forall>c\<in>set s. is_space c)"
proof
  assume "trim s = []"
  then have a: "\<forall>c\<in>set (dropWhile is_space s). is_space c"
    by (simp add: trim_def dropWhile_eq_Nil_conv)
  show "\<forall>c\<in>set s. is_space c"
  proof (cases "dropWhile is_space s")
    case Nil
    then show ?thesis by (simp add: dropWhile_eq_Nil_conv)
  next
    case (Cons x xs)
    then have "\<not> is_space x" using hd_dropWhile [of is_space s] by simp
    moreover have "is_space x" using a Cons by simp
    ultimately show ?thesis by simp
  qed
next
  assume "\<forall>c\<in>set s. is_space c"
  then have d: "dropWhile is_space s = []" by (simp add: dropWhile_eq_Nil_conv)
  show "trim s = []" unfolding trim_def d by simp
qed

lemma trim_snoc_newline: "trim (s @ [10]) = trim s"
proof (cases "\<forall>c\<in>set s. is_space c")
  case True
  then have "trim s = []" by (simp add: trim_Nil_iff)
  moreover have "trim (s @ [10]) = []" using True by (simp add: trim_Nil_iff is_space_def)
  ultimately show ?thesis by simp
next
  case False
  then obtain x where "x \<in> set s" "\<not> is_space x" by blast
  then have "dropWhile is_space (s @ [10]) = dropWhile is_space s @ [10]"
    by (rule dropWhile_append1)
  then show ?thesis by (simp add: trim_def is_space_def)
qed



lemma process_line_fenced:
  "inCodeBlock st \<Longrightarrow>
   process_line st line rest =
     (st\<lparr>inCodeBlock := \<not> startsWith (trim line) (js ''```''),
         currentPoint := currentPoint st @ line @ [10]\<rparr>, False)"
  by (simp add: process_line_def)

lemma process_line_blank:
  "\<not> inCodeBlock st \<Longrightarrow> trim line = [] \<Longrightarrow>
   process_line st line rest =
     (if emptyLineCount st \<ge> 1 \<and> trim (currentPoint st) \<noteq> [] then
        st\<lparr>emptyLineCount := emptyLineCount st + 1,
           summaryPoints := summaryPoints st @
             [\<lparr>timestamp = currentTimestamp st, point = trim (currentPoint st)\<rparr>],
           currentPoint := []\<rparr>
      else st\<lparr>emptyLineCount := emptyLineCount st + 1,
              currentPoint := currentPoint st @ [10]\<rparr>, False)"
  by (auto simp: process_line_def startsWith_def js_def Let_def push_point_def trim_snoc_newline)



lemma parse_nonempty: "trim s \<noteq> [] \<Longrightarrow> parseSummary s \<noteq> []"
  by (auto simp: parseSummary_def Let_def trim_def)

lemma parse_blank: "trim s = [] \<Longrightarrow> parseSummary s = []"
  by (simp add: parseSummary_def)

lemma scan_fenced_lines:
  "inCodeBlock st \<Longrightarrow> \<forall>l\<in>set ls. \<not> startsWith (trim l) (js ''```'') \<Longrightarrow>
   scan st (ls @ rest) =
     scan (st\<lparr>currentPoint := currentPoint st @ concat (map (\<lambda>l. l @ [10]) ls)\<rparr>) rest"
proof (induction ls arbitrary: st)
  case Nil
  then show ?case by simp
next
  case (Cons l ls)
  let ?st' = "st\<lparr>currentPoint := currentPoint st @ l @ [10]\<rparr>"
  have step: "process_line st l (ls @ rest) = (?st', False)"
    using Cons.prems by (simp add: process_line_fenced)
  have "scan st ((l # ls) @ rest) = scan ?st' (ls @ rest)"
    by (simp add: step)
  also have "\<dots> = scan (?st'\<lparr>currentPoint := currentPoint ?st' @ concat (map (\<lambda>l. l @ [10]) ls)\<rparr>) rest"
    using Cons.prems by (intro Cons.IH) simp_all
  finally show ?case by simp
qed



section \<open>The claims about the parser\<close>

text \<open>
  Claim C2. \<open>parseSummary\<close> returns the empty sequence exactly when the input is
  empty or has whitespace characters only. So every input with a non-whitespace character
  gives at least one point, and when the scan itself produced none, the result is the one
  point with the empty timestamp and the trimmed input as its text.
\<close>

theorem parse_empty_iff_blank:
  "(parseSummary s = [] \<longleftrightarrow> s = [] \<or> (\<forall>c\<in>set s. is_space c)) \<and>
   ((\<exists>c\<in>set s. \<not> is_space c) \<longrightarrow> parseSummary s \<noteq> []) \<and>
   ((\<exists>c\<in>set s. \<not> is_space c) \<and>
      summaryPoints (push_if_content (scan initial_state (split_lines s))) = [] \<longrightarrow>
      parseSummary s = [\<lparr>timestamp = [], point = trim s\<rparr>])"
proof (cases "trim s = []")
  case True
  then show ?thesis using parse_blank [of s] by (auto simp: trim_Nil_iff)
next
  case False
  then have ne: "\<exists>c\<in>set s. \<not> is_space c" by (simp add: trim_Nil_iff)
  have "parseSummary s \<noteq> []" using False by (rule parse_nonempty)
  moreover have "s \<noteq> []" using False by (auto simp: trim_def)
  then have "summaryPoints (push_if_content (scan initial_state (split_lines s))) = [] \<Longrightarrow>
      parseSummary s = [\<lparr>timestamp = [], point = trim s\<rparr>]"
    using False by (simp add: parseSummary_def Let_def)
  ultimately show ?thesis using ne by auto
qed

text \<open>
  The theorem at a blank input, at the empty input, at a text without a timestamp, and at
  \<open>" 1:23 "\<close>, where the scan produces no point and the fallback answers.
\<close>

theorem parse_empty_iff_blank_witness:
  "parseSummary (js '' \<newline>  '') = [] \<and> parseSummary [] = [] \<and>
   parseSummary (js ''no stamp'') = [\<lparr>timestamp = [], point = js ''no stamp''\<rparr>] \<and>
   parseSummary (js '' 1:23 '') = [\<lparr>timestamp = [], point = js ''1:23''\<rparr>]"
proof -
  have a: "\<forall>c\<in>set (js '' \<newline>  ''). is_space c" by (simp add: js_def is_space_def)
  have b: "\<exists>c\<in>set (js '' 1:23 ''). \<not> is_space c" by (simp add: js_def is_space_def)
  have c: "summaryPoints (push_if_content (scan initial_state (split_lines (js '' 1:23 '')))) = []"
    by (simp add: parser_eval)
  have d: "trim (js '' 1:23 '') = js ''1:23''" by (simp add: parser_eval)
  have e: "parseSummary (js ''no stamp'') = [\<lparr>timestamp = [], point = js ''no stamp''\<rparr>]"
    by (simp add: parser_eval)
  show ?thesis
    using parse_empty_iff_blank [of "js '' \<newline>  ''"] parse_empty_iff_blank [of "[]"]
      parse_empty_iff_blank [of "js '' 1:23 ''"] a b c d e
    by simp
qed

text \<open>
  Claim C4. Inside a fenced block the loop body appends the line and a newline to the
  current point and changes nothing else but the fence flag, which a fence line turns off:
  the points, the tracked timestamp and the blank-line counter stay, and the next line is
  not consumed. A run of lines without a fence line is therefore appended as it is, whatever
  the lines contain. The input of three lines \<open>```\<close>, \<open>1:23 not a timestamp\<close> and
  \<open>```\<close> followed by a space gives one point with the empty timestamp whose text is the
  input from the first fence marker to the last (the text of a point is trimmed, which
  takes the space at the end).
\<close>

theorem fenced_block_opaque:
  assumes "inCodeBlock st"
  shows "process_line st line rest =
           (st\<lparr>inCodeBlock := \<not> startsWith (trim line) (js ''```''),
               currentPoint := currentPoint st @ line @ [10]\<rparr>, False) \<and>
         ((\<forall>l\<in>set ls. \<not> startsWith (trim l) (js ''```'')) \<longrightarrow>
            scan st (ls @ rest) =
              scan (st\<lparr>currentPoint := currentPoint st @ concat (map (\<lambda>l. l @ [10]) ls)\<rparr>) rest) \<and>
         parseSummary (js ''```\<newline>1:23 not a timestamp\<newline>``` '') =
           [\<lparr>timestamp = [], point = js ''```\<newline>1:23 not a timestamp\<newline>```''\<rparr>]"
proof -
  have "parseSummary (js ''```\<newline>1:23 not a timestamp\<newline>``` '') =
           [\<lparr>timestamp = [], point = js ''```\<newline>1:23 not a timestamp\<newline>```''\<rparr>]"
    by (simp add: parser_eval)
  then show ?thesis
    using assms process_line_fenced [OF assms] scan_fenced_lines [OF assms] by blast
qed

text \<open>
  The theorem in the state after the opening fence of that input, at the line
  \<open>1:23 not a timestamp\<close> and at a run of two lines.
\<close>

theorem fenced_block_opaque_witness:
  "inCodeBlock (initial_state\<lparr>inCodeBlock := True, currentPoint := js ''```\<newline>''\<rparr>) \<and>
   process_line (initial_state\<lparr>inCodeBlock := True, currentPoint := js ''```\<newline>''\<rparr>)
       (js ''1:23 not a timestamp'') [js ''``` ''] =
     (initial_state\<lparr>inCodeBlock := True,
        currentPoint := js ''```\<newline>1:23 not a timestamp\<newline>''\<rparr>, False) \<and>
   scan (initial_state\<lparr>inCodeBlock := True, currentPoint := js ''```\<newline>''\<rparr>)
       [js ''1:23 not a timestamp'', js ''## 2:00 no heading'', js ''``` ''] =
     scan (initial_state\<lparr>inCodeBlock := True,
        currentPoint := js ''```\<newline>1:23 not a timestamp\<newline>## 2:00 no heading\<newline>''\<rparr>)
       [js ''``` ''] \<and>
   parseSummary (js ''```\<newline>1:23 not a timestamp\<newline>``` '') =
     [\<lparr>timestamp = [], point = js ''```\<newline>1:23 not a timestamp\<newline>```''\<rparr>]"
proof -
  let ?st = "initial_state\<lparr>inCodeBlock := True, currentPoint := js ''```\<newline>''\<rparr>"
  have a: "inCodeBlock ?st" by simp
  have b: "\<forall>l\<in>set [js ''1:23 not a timestamp'', js ''## 2:00 no heading''].
             \<not> startsWith (trim l) (js ''```'')"
    by (simp add: js_def trim_def is_space_def startsWith_def)
  have c: "\<not> startsWith (trim (js ''1:23 not a timestamp'')) (js ''```'')"
    by (simp add: js_def trim_def is_space_def startsWith_def)
  show ?thesis
    using fenced_block_opaque [OF a, of "js ''1:23 not a timestamp''" "[js ''``` '']"
        "[js ''1:23 not a timestamp'', js ''## 2:00 no heading'']"] b c
    by (simp add: js_def)
qed

text \<open>
  Claim C5. Outside a fenced block, let \<open>l1\<close> and \<open>l2\<close> be two consecutive blank
  lines and \<open>st1\<close> the state after \<open>l1\<close>. If the point accumulated in \<open>st1\<close> has a
  non-whitespace character, the body at \<open>l2\<close> pushes it, trimmed, with the tracked
  timestamp, empties the accumulated point and keeps the tracked timestamp, which is
  still the one from before \<open>l1\<close>. The input \<open>"0:01 first\n\n\nsecond"\<close> gives the two
  points \<open>{0:01, first}\<close> and \<open>{0:01, second}\<close>.
\<close>

theorem double_blank_line_closes_point:
  assumes "\<not> inCodeBlock st" and "trim l1 = []" and "trim l2 = []"
    and "process_line st l1 r1 = (st1, k1)" and "trim (currentPoint st1) \<noteq> []"
  shows "process_line st1 l2 r2 =
           (st1\<lparr>emptyLineCount := emptyLineCount st1 + 1,
                summaryPoints := summaryPoints st1 @
                  [\<lparr>timestamp = currentTimestamp st1, point = trim (currentPoint st1)\<rparr>],
                currentPoint := []\<rparr>, False) \<and>
         currentTimestamp st1 = currentTimestamp st \<and>
         parseSummary (js ''0:01 first\<newline>\<newline>\<newline>second'') =
           [\<lparr>timestamp = js ''0:01'', point = js ''first''\<rparr>,
            \<lparr>timestamp = js ''0:01'', point = js ''second''\<rparr>]"
proof -
  have st1: "st1 = fst (process_line st l1 r1)" using assms(4) by simp
  have "\<not> inCodeBlock st1 \<and> emptyLineCount st1 \<ge> 1 \<and> currentTimestamp st1 = currentTimestamp st"
    unfolding st1 using assms(1,2) by (simp add: process_line_blank)
  then have "process_line st1 l2 r2 =
           (st1\<lparr>emptyLineCount := emptyLineCount st1 + 1,
                summaryPoints := summaryPoints st1 @
                  [\<lparr>timestamp = currentTimestamp st1, point = trim (currentPoint st1)\<rparr>],
                currentPoint := []\<rparr>, False)"
    and "currentTimestamp st1 = currentTimestamp st"
    using assms(3,5) by (simp_all add: process_line_blank)
  moreover have "parseSummary (js ''0:01 first\<newline>\<newline>\<newline>second'') =
           [\<lparr>timestamp = js ''0:01'', point = js ''first''\<rparr>,
            \<lparr>timestamp = js ''0:01'', point = js ''second''\<rparr>]"
    by (simp add: parser_eval)
  ultimately show ?thesis by simp
qed

text \<open>
  The theorem at the two blank lines of that input.
\<close>

theorem double_blank_line_closes_point_witness:
  "process_line
     (initial_state\<lparr>currentTimestamp := js ''0:01'', currentPoint := js ''first\<newline>\<newline>'',
        emptyLineCount := 1\<rparr>) [] [js ''second''] =
     (initial_state\<lparr>currentTimestamp := js ''0:01'', emptyLineCount := 2,
        summaryPoints := [\<lparr>timestamp = js ''0:01'', point = js ''first''\<rparr>]\<rparr>, False)"
proof -
  let ?st = "initial_state\<lparr>currentTimestamp := js ''0:01'', currentPoint := js ''first\<newline>''\<rparr>"
  let ?st1 = "initial_state\<lparr>currentTimestamp := js ''0:01'', currentPoint := js ''first\<newline>\<newline>'',
        emptyLineCount := 1\<rparr>"
  have a: "\<not> inCodeBlock ?st" by (simp add: initial_state_def)
  have b: "trim [] = []" by (simp add: trim_def)
  have c: "process_line ?st [] [[], js ''second''] = (?st1, False)"
    by (simp add: parser_eval)
  have d: "trim (currentPoint ?st1) \<noteq> []" by (simp add: parser_eval)
  have e: "trim (currentPoint ?st1) = js ''first''" by (simp add: parser_eval)
  show ?thesis
    using double_blank_line_closes_point [OF a b b c d, of "[js ''second'']"] e
    by (simp add: initial_state_def)
qed




section \<open>Facts about the cache backends\<close>

subsection \<open>Runs without a failure\<close>

lemma findIndex_None_iff: "findIndex P xs = None \<longleftrightarrow> (\<forall>x\<in>set xs. \<not> P x)"
  by (induction xs) auto

lemma findIndex_Some_iff:
  "findIndex P xs = Some i \<longleftrightarrow> i < length xs \<and> P (xs ! i) \<and> (\<forall>j<i. \<not> P (xs ! j))"
proof (induction xs arbitrary: i)
  case Nil
  then show ?case by simp
next
  case (Cons x xs)
  show ?case
  proof (cases "P x")
    case True
    then show ?thesis by (cases i) auto
  next
    case False
    show ?thesis
    proof (cases i)
      case 0
      then show ?thesis using False by auto
    next
      case (Suc k)
      have "(\<forall>j<Suc k. \<not> P ((x # xs) ! j)) \<longleftrightarrow> (\<forall>j<k. \<not> P (xs ! j))"
        using False by (auto simp: less_Suc_eq_0_disj)
      then show ?thesis using False Suc Cons.IH [of k] by auto
    qed
  qed
qed

lemma readDatabase_ok: "readDatabase ReadsDatabase w = (Database (records_json w), w)"
  by (simp add: readDatabase_def read_file_def records_json_def split: option.splits)

lemma readDatabase_db: "db (snd (readDatabase f w)) = db w"
  by (simp add: readDatabase_def read_file_def console_error_def
      split: option.splits reading.splits)

lemma writeDatabase_ok: "writeDatabase False xs w = w\<lparr>db := Some xs\<rparr>"
  by (simp add: writeDatabase_def write_file_def)

lemma checkSummaryExists_json_ok:
  "checkSummaryExists_json ReadsDatabase vid sty w =
     (Inr (\<exists>r\<in>set (records_json w). same_key vid sty r), w)"
  by (simp add: checkSummaryExists_json_def readDatabase_ok summaries_of_def list_ex_iff)

lemma checkSummaryExists_sqlite_ok:
  "checkSummaryExists_sqlite False vid sty w =
     (Inr (\<exists>r\<in>set (records_sqlite w). same_key vid sty r), w)"
proof -
  have "(0 < length (filter (\<lambda>(i, r). same_key vid sty r) (rows (db w)))) \<longleftrightarrow>
        (\<exists>r\<in>set (map snd (rows (db w))). same_key vid sty r)"
    by (force simp: filter_empty_conv)
  then show ?thesis
    by (simp add: checkSummaryExists_sqlite_def count_where_def records_sqlite_def)
qed

lemma getCachedSummary_json_ok:
  "getCachedSummary_json ReadsDatabase False now vid sty w =
     (case findIndex (same_key vid sty) (records_json w) of
        None \<Rightarrow> (Inr None, w)
      | Some i \<Rightarrow>
          (Inr (Some ((records_json w ! i)\<lparr>accessed_at := now\<rparr>)),
           w\<lparr>db := Some ((records_json w)[i := (records_json w ! i)\<lparr>accessed_at := now\<rparr>])\<rparr>))"
  by (simp add: getCachedSummary_json_def readDatabase_ok writeDatabase_ok summaries_of_def
      Let_def split: option.splits)

lemma saveSummary_json_ok:
  "saveSummary_json ReadsDatabase False now data w =
     (Inr (), w\<lparr>db := Some (upsert now data (records_json w))\<rparr>)"
  by (simp add: saveSummary_json_def readDatabase_ok writeDatabase_ok summaries_of_def)

lemma getRecentSummaries_json_ok:
  "getRecentSummaries_json ReadsDatabase limit w =
     (Inr (take limit (sort_key (\<lambda>r. - int (accessed_at r)) (records_json w))), w)"
  by (simp add: getRecentSummaries_json_def readDatabase_ok summaries_of_def)

lemma select_where_None_iff:
  "select_where vid sty t = None \<longleftrightarrow> (\<forall>r\<in>set (map snd (rows t)). \<not> same_key vid sty r)"
  by (auto simp: select_where_def find_None_iff)

lemma getCachedSummary_sqlite_ok:
  "getCachedSummary_sqlite False False now vid sty w =
     (case select_where vid sty (db w) of
        None \<Rightarrow> (Inr None, w)
      | Some r \<Rightarrow> (Inr (Some r), w\<lparr>db := update_accessed_at now vid sty (db w)\<rparr>))"
  by (simp add: getCachedSummary_sqlite_def split: option.splits)

lemma records_update_accessed_at:
  "map snd (rows (update_accessed_at now vid sty t)) =
     map (\<lambda>r. if same_key vid sty r then r\<lparr>accessed_at := now\<rparr> else r) (map snd (rows t))"
  by (auto simp: update_accessed_at_def)

lemma ids_update_accessed_at:
  "map fst (rows (update_accessed_at now vid sty t)) = map fst (rows t)"
  by (auto simp: update_accessed_at_def)

lemma select_where_first:
  assumes "select_where vid sty t = Some x"
  shows "\<exists>i<length (rows t). x = rows t ! i \<and> same_key vid sty (snd x) \<and>
           (\<forall>j<i. \<not> same_key vid sty (snd (rows t ! j)))"
proof -
  from assms have x: "find (\<lambda>(i, r). same_key vid sty r) (rows t) = Some x"
    by (simp add: select_where_def)
  then obtain i where "i < length (rows t)" "same_key vid sty (snd (rows t ! i))"
      "x = rows t ! i" "\<forall>j<i. \<not> same_key vid sty (snd (rows t ! j))"
    by (auto simp: find_Some_iff split_beta)
  then show ?thesis by blast
qed

lemmas cache_eval =
  saveSummary_json_def readDatabase_def read_file_def writeDatabase_def write_file_def
  console_error_def upsert_def newRecord_def same_key_def MAX_SUMMARIES_def records_json_def
  saveSummary_sqlite_def saveSummary_try_def insert_or_replace_def select_where_def
  count_all_def delete_oldest_def order_by_accessed_at_asc_def records_sqlite_def
  getCachedSummary_json_def getCachedSummary_sqlite_def update_accessed_at_def
  checkSummaryExists_json_def checkSummaryExists_sqlite_def count_where_def
  getRecentSummaries_json_def getRecentSummaries_sqlite_def select_recent_def
  order_by_accessed_at_desc_def empty_json_def empty_sqlite_def summaries_of_def
  text_order_def year_10000_def

subsection \<open>Sorting, and the order of the stored texts\<close>

lemma MAX_SUMMARIES_pos: "0 < MAX_SUMMARIES"
  by (simp add: MAX_SUMMARIES_def)



lemma sort_key_snoc_min:
  "\<forall>y\<in>set xs. f x < f y \<Longrightarrow> sort_key f (xs @ [x]) = x # sort_key f xs"
proof (induction xs)
  case Nil
  then show ?case by simp
next
  case (Cons a xs)
  then have "sort_key f (xs @ [x]) = x # sort_key f xs" and "\<not> f a \<le> f x" by auto
  then show ?case by simp
qed

lemma sorted_hd_least:
  assumes "sorted (map f ys)" and "ys \<noteq> []" and "y \<in> set ys"
  shows "f (hd ys) \<le> f y"
  using assms by (cases ys) auto

lemma sort_key_not_Nil: "xs \<noteq> [] \<Longrightarrow> sort_key f xs \<noteq> []"
  by (metis length_sort length_0_conv)

lemma oldest_is_least:
  assumes "xs \<noteq> []"
  shows "hd (sort_key f xs) \<in> set xs \<and> (\<forall>r\<in>set xs. f (hd (sort_key f xs)) \<le> f r)"
proof -
  have ne: "sort_key f xs \<noteq> []" using assms by (rule sort_key_not_Nil)
  then have "hd (sort_key f xs) \<in> set (sort_key f xs)" by (rule hd_in_set)
  then have "hd (sort_key f xs) \<in> set xs" by simp
  moreover have "f (hd (sort_key f xs)) \<le> f r" if "r \<in> set xs" for r
    using sorted_hd_least [of f "sort_key f xs" r] ne that by simp
  ultimately show ?thesis by simp
qed

lemma hd_insort_key:
  "hd (insort_key f a ys) = (if ys = [] \<or> f a \<le> f (hd ys) then a else hd ys)"
  by (cases ys) simp_all

text \<open>
  The first of the sorted list when a last element is added: the new element only if it
  is strictly below all others.
\<close>

lemma hd_sort_snoc_not_min:
  "\<exists>y\<in>set xs. f y \<le> f x \<Longrightarrow> hd (sort_key f (xs @ [x])) = hd (sort_key f xs)"
proof (induction xs)
  case Nil
  then show ?case by simp
next
  case (Cons a xs)
  show ?case
  proof (cases "\<exists>z\<in>set xs. f z \<le> f x")
    case True
    then have ne: "xs \<noteq> []" by auto
    have ih: "hd (sort_key f (xs @ [x])) = hd (sort_key f xs)"
      using Cons.IH True by blast
    have n1: "sort_key f (xs @ [x]) \<noteq> []" by (rule sort_key_not_Nil) simp
    have n2: "sort_key f xs \<noteq> []" using ne by (rule sort_key_not_Nil)
    show ?thesis
      using ih n1 n2 by (simp add: hd_insort_key)
  next
    case False
    then have all: "\<forall>z\<in>set xs. f x < f z" by (auto simp: not_le)
    then have s: "sort_key f (xs @ [x]) = x # sort_key f xs" by (rule sort_key_snoc_min)
    have ax: "f a \<le> f x" using Cons.prems False by auto
    have "xs = [] \<or> f a \<le> f (hd (sort_key f xs))"
    proof (cases "xs = []")
      case True
      then show ?thesis by simp
    next
      case ne: False
      then have "hd (sort_key f xs) \<in> set xs" using oldest_is_least by blast
      then have "f x < f (hd (sort_key f xs))" using all by blast
      then have "f a \<le> f (hd (sort_key f xs))" using ax by (rule order.strict_implies_order [OF le_less_trans, rotated])
      then show ?thesis by simp
    qed
    then show ?thesis
      using ax s by (auto simp: hd_insort_key sort_key_not_Nil)
  qed
qed

lemma hd_sort_snoc:
  "hd (sort_key f (xs @ [x])) =
     (if \<forall>y\<in>set xs. f x < f y then x else hd (sort_key f xs))"
proof (cases "\<forall>y\<in>set xs. f x < f y")
  case True
  then show ?thesis by (simp add: sort_key_snoc_min)
next
  case False
  then have "\<exists>y\<in>set xs. f y \<le> f x" by (auto simp: not_less)
  then have "hd (sort_key f (xs @ [x])) = hd (sort_key f xs)" by (rule hd_sort_snoc_not_min)
  then show ?thesis by (simp only: False if_False)
qed

lemma mset_tl_hd: "xs \<noteq> [] \<Longrightarrow> mset (tl xs) = mset xs - {#hd xs#}"
  by (cases xs) simp_all

lemma distinct_map_remove1:
  "distinct (map f xs) \<Longrightarrow> distinct (map f (remove1 v xs))"
proof (induction xs)
  case Nil
  then show ?case by simp
next
  case (Cons x xs)
  have "f x \<notin> f ` set (remove1 v xs)"
    using Cons.prems set_remove1_subset [of v xs] by auto
  then show ?case using Cons by simp
qed

text \<open>
  Among instants before the year 10000 the order of the texts is the order of the
  instants; an instant from the year 10000 on has a text before all of theirs.
\<close>

lemma text_order_le_iff:
  "a < year_10000 \<Longrightarrow> b < year_10000 \<Longrightarrow> text_order a \<le> text_order b \<longleftrightarrow> a \<le> b"
  by (auto simp: text_order_def less_eq_prod_def)

lemma text_order_less_iff:
  "a < year_10000 \<Longrightarrow> b < year_10000 \<Longrightarrow> text_order a < text_order b \<longleftrightarrow> a < b"
  by (auto simp: text_order_def less_prod_def)

lemma text_order_year_10000:
  "a < year_10000 \<Longrightarrow> year_10000 \<le> b \<Longrightarrow> text_order b < text_order a"
  by (auto simp: text_order_def less_prod_def)



lemma same_key_key_of: "same_key vid sty r \<longleftrightarrow> key_of r = (vid, sty)"
  by (auto simp: same_key_def key_of_def)

lemma key_of_newRecord: "key_of (newRecord data c now) = (videoId data, SummaryData.style data)"
  by (simp add: key_of_def newRecord_def)

lemma accessed_at_newRecord: "accessed_at (newRecord data c now) = now"
  by (simp add: newRecord_def)

lemma same_key_newRecord: "same_key (videoId data) (SummaryData.style data) (newRecord data c now)"
  by (simp add: same_key_def newRecord_def)

lemma distinct_key_filter:
  assumes "distinct (map key_of xs)" and "r \<in> set xs"
  shows "filter (\<lambda>x. key_of x = key_of r) xs = [r]"
  using assms
proof (induction xs)
  case Nil
  then show ?case by simp
next
  case (Cons x xs)
  show ?case
  proof (cases "x = r")
    case True
    have "key_of r \<notin> key_of ` set xs" using Cons.prems(1) True by simp
    then have "\<forall>y\<in>set xs. key_of y \<noteq> key_of r" by (metis imageI)
    then have "filter (\<lambda>y. key_of y = key_of r) xs = []"
      by (simp add: filter_empty_conv)
    then show ?thesis using True by simp
  next
    case False
    then have "r \<in> set xs" using Cons.prems(2) by simp
    then have "key_of x \<noteq> key_of r" using Cons.prems(1) by auto
    then show ?thesis using Cons \<open>r \<in> set xs\<close> by simp
  qed
qed

lemma same_key_unique:
  assumes "distinct (map key_of xs)" and "r \<in> set xs" and "same_key vid sty r"
  shows "filter (same_key vid sty) xs = [r]" and "find (same_key vid sty) xs = Some r"
proof -
  have "filter (same_key vid sty) xs = filter (\<lambda>x. key_of x = key_of r) xs"
    using assms(3) by (intro filter_cong) (auto simp: same_key_key_of)
  then show f: "filter (same_key vid sty) xs = [r]"
    using distinct_key_filter [OF assms(1,2)] by simp
  have "find P ys = (case filter P ys of [] \<Rightarrow> None | y # _ \<Rightarrow> Some y)" for P and ys :: "SummaryRecord list"
    by (induction ys) auto
  then show "find (same_key vid sty) xs = Some r" using f by simp
qed

lemma findIndex_find:
  "find P xs = (case findIndex P xs of None \<Rightarrow> None | Some i \<Rightarrow> Some (xs ! i))"
  by (induction xs) (auto split: option.splits)

subsection \<open>\<open>upsert\<close>\<close>

lemma upsert_present:
  assumes "findIndex (same_key (videoId data) (SummaryData.style data)) xs = Some i"
  shows "upsert now data xs = xs[i := newRecord data (created_at (xs ! i)) now]"
  using assms by (simp add: upsert_def)

lemma upsert_absent:
  assumes "\<forall>r\<in>set xs. \<not> same_key (videoId data) (SummaryData.style data) r"
  shows "upsert now data xs =
           (if length xs < MAX_SUMMARIES then xs @ [newRecord data now now]
            else drop (Suc (length xs) - MAX_SUMMARIES)
                   (sort_key accessed_at (xs @ [newRecord data now now])))"
proof -
  have none: "findIndex (same_key (videoId data) (SummaryData.style data)) xs = None"
    using assms by (simp add: findIndex_None_iff)
  show ?thesis
    unfolding upsert_def none by (auto simp: Let_def)
qed


lemma upsert_full:
  assumes "\<forall>r\<in>set xs. \<not> same_key (videoId data) (SummaryData.style data) r"
    and "length xs = MAX_SUMMARIES"
  shows "upsert now data xs = tl (sort_key accessed_at (xs @ [newRecord data now now]))"
  using assms(2) by (simp add: upsert_absent [OF assms(1)] drop_Suc)

lemma upsert_wf:
  assumes "wf_records xs"
  shows "wf_records (upsert now data xs)"
proof (cases "findIndex (same_key (videoId data) (SummaryData.style data)) xs")
  case (Some i)
  then have i: "i < length xs" "same_key (videoId data) (SummaryData.style data) (xs ! i)"
    by (simp_all add: findIndex_Some_iff)
  let ?n = "newRecord data (created_at (xs ! i)) now"
  have "key_of ?n = key_of (xs ! i)"
    using i(2) by (simp add: same_key_key_of key_of_newRecord)
  then have "map key_of (xs[i := ?n]) = map key_of xs"
    using i(1) by (simp add: map_update list_update_same_conv)
  then show ?thesis
    using assms by (simp add: upsert_present [OF Some] wf_records_def)
next
  case None
  then have absent: "\<forall>r\<in>set xs. \<not> same_key (videoId data) (SummaryData.style data) r"
    by (simp add: findIndex_None_iff)
  let ?n = "newRecord data now now"
  let ?k = "Suc (length xs) - MAX_SUMMARIES"
  have fresh: "key_of ?n \<notin> set (map key_of xs)"
    using absent by (auto simp: same_key_key_of key_of_newRecord)
  then have dk: "distinct (map key_of (xs @ [?n]))"
    using assms by (simp add: wf_records_def)
  show ?thesis
  proof (cases "length xs < MAX_SUMMARIES")
    case True
    then show ?thesis
      using dk by (simp add: upsert_absent [OF absent] wf_records_def)
  next
    case False
    let ?s = "sort_key accessed_at (xs @ [?n])"
    have up: "upsert now data xs = drop ?k ?s"
      using False by (simp add: upsert_absent [OF absent])
    have "mset (map key_of ?s) = mset (map key_of (xs @ [?n]))" by simp
    then have "distinct (map key_of ?s)"
      using dk by (metis mset_eq_imp_distinct_iff)
    then have d: "distinct (map key_of (drop ?k ?s))"
      by (simp add: drop_map [symmetric])
    have len: "length (drop ?k ?s) \<le> MAX_SUMMARIES"
      using MAX_SUMMARIES_pos by simp
    show ?thesis unfolding up wf_records_def using d len by blast
  qed
qed

text \<open>
  The put that takes a full store over the capacity: the first of the records in the
  order of \<open>accessed_at\<close>, the new one included, goes. It is the new one exactly when
  every stored record was accessed after \<open>now\<close>.
\<close>

lemma upsert_overflow:
  assumes "\<forall>r\<in>set xs. \<not> same_key (videoId data) (SummaryData.style data) r"
    and "length xs = MAX_SUMMARIES"
  shows "length (upsert now data xs) = MAX_SUMMARIES \<and>
         (\<exists>v\<in>set (xs @ [newRecord data now now]).
            mset (upsert now data xs) = mset (xs @ [newRecord data now now]) - {#v#} \<and>
            (\<forall>r\<in>set (xs @ [newRecord data now now]). accessed_at v \<le> accessed_at r)) \<and>
         (newRecord data now now \<in> set (upsert now data xs) \<longleftrightarrow>
            (\<exists>r\<in>set xs. accessed_at r \<le> now))"
proof -
  let ?n = "newRecord data now now"
  let ?s = "sort_key accessed_at (xs @ [?n])"
  have ne: "xs @ [?n] \<noteq> []" by simp
  then have sne: "?s \<noteq> []" by (rule sort_key_not_Nil)
  have up: "upsert now data xs = tl ?s" using assms by (rule upsert_full)
  have v: "hd ?s \<in> set (xs @ [?n])"
    and least: "\<forall>r\<in>set (xs @ [?n]). accessed_at (hd ?s) \<le> accessed_at r"
    using oldest_is_least [OF ne, of accessed_at] by blast+
  have len: "length (tl ?s) = MAX_SUMMARIES" using assms(2) by simp
  have ms: "mset (tl ?s) = mset (xs @ [?n]) - {#hd ?s#}"
    using sne by (simp add: mset_tl_hd)
  have nx: "?n \<notin> set xs"
    using assms(1) same_key_newRecord [of data now now] by blast
  have hd_eq: "hd ?s = (if \<forall>y\<in>set xs. accessed_at ?n < accessed_at y then ?n
                         else hd (sort_key accessed_at xs))"
    by (rule hd_sort_snoc)
  have xne: "xs \<noteq> []" using assms(2) MAX_SUMMARIES_pos by auto
  have kept: "?n \<in> set (tl ?s) \<longleftrightarrow> (\<exists>r\<in>set xs. accessed_at r \<le> now)"
  proof (cases "\<forall>y\<in>set xs. now < accessed_at y")
    case True
    then have "hd ?s = ?n" using hd_eq by (simp add: accessed_at_newRecord)
    then have "mset (tl ?s) = mset xs" using ms by simp
    then have "set (tl ?s) = set xs" by (rule mset_eq_setD)
    then show ?thesis using nx True by (auto simp: not_le)
  next
    case False
    then have "\<not> (\<forall>y\<in>set xs. accessed_at ?n < accessed_at y)"
      by (simp only: accessed_at_newRecord not_False_eq_True)
    then have "hd ?s = hd (sort_key accessed_at xs)"
      using hd_eq by (simp only: if_False)
    then have "hd ?s \<in> set xs" using oldest_is_least [OF xne, of accessed_at] by simp
    then have "hd ?s \<noteq> ?n" using nx by auto
    then have "?n \<in># mset (xs @ [?n]) - {#hd ?s#}" by simp
    then have "?n \<in> set (tl ?s)" using ms by (metis set_mset_mset)
    then show ?thesis using False by (auto simp: not_less)
  qed
  show ?thesis unfolding up using len v ms least kept by blast
qed

text \<open>When every stored record was accessed after \<open>now\<close>, the put leaves none of its key.\<close>

lemma upsert_behind:
  assumes "\<forall>r\<in>set xs. \<not> same_key (videoId data) (SummaryData.style data) r"
    and "length xs = MAX_SUMMARIES"
    and "\<forall>r\<in>set xs. now < accessed_at r"
  shows "upsert now data xs = sort_key accessed_at xs"
proof -
  have "sort_key accessed_at (xs @ [newRecord data now now]) =
      newRecord data now now # sort_key accessed_at xs"
    using assms(3) by (intro sort_key_snoc_min) (simp add: accessed_at_newRecord)
  then show ?thesis by (simp add: upsert_full [OF assms(1,2)])
qed

text \<open>
  The record that a put writes is in the store afterwards when the key was there, or
  there was room, or some stored record was not accessed after \<open>now\<close>.
\<close>

lemma upsert_new_mem:
  assumes "wf_records xs"
    and "(\<exists>r\<in>set xs. same_key (videoId data) (SummaryData.style data) r) \<or>
         length xs < MAX_SUMMARIES \<or> (\<exists>r\<in>set xs. accessed_at r \<le> now)"
  shows "newRecord data
           (case find (same_key (videoId data) (SummaryData.style data)) xs of
              Some r0 \<Rightarrow> created_at r0 | None \<Rightarrow> now) now \<in> set (upsert now data xs)"
proof (cases "findIndex (same_key (videoId data) (SummaryData.style data)) xs")
  case (Some i)
  then have "i < length xs" by (simp add: findIndex_Some_iff)
  then show ?thesis
    by (simp add: upsert_present [OF Some] findIndex_find Some set_update_memI)
next
  case None
  then have absent: "\<forall>r\<in>set xs. \<not> same_key (videoId data) (SummaryData.style data) r"
    by (simp add: findIndex_None_iff)
  show ?thesis
  proof (cases "length xs < MAX_SUMMARIES")
    case True
    then show ?thesis by (simp add: upsert_absent [OF absent] findIndex_find None)
  next
    case False
    then have full: "length xs = MAX_SUMMARIES"
      using assms(1) by (simp add: wf_records_def)
    have "\<exists>r\<in>set xs. accessed_at r \<le> now" using assms(2) absent False by blast
    then have "newRecord data now now \<in> set (upsert now data xs)"
      using upsert_overflow [OF absent full, of now] by blast
    then show ?thesis by (simp add: findIndex_find None)
  qed
qed

lemma touch_wf:
  assumes "wf_records xs" and "i < length xs"
  shows "wf_records (xs[i := (xs ! i)\<lparr>accessed_at := now\<rparr>])"
proof -
  let ?r = "(xs ! i)\<lparr>accessed_at := now\<rparr>"
  have "key_of ?r = key_of (xs ! i)" by (simp add: key_of_def)
  then have "map key_of (xs[i := ?r]) = map key_of xs"
    using assms(2) by (simp add: map_update list_update_same_conv)
  then show ?thesis using assms(1) by (simp add: wf_records_def)
qed

lemma records_json_db [simp]: "records_json (w\<lparr>db := Some xs\<rparr>) = xs"
  by (simp add: records_json_def)

lemma step_json_wf:
  assumes "wf_records (records_json w)"
  shows "wf_records (records_json (snd (step_json now c w)))"
proof (cases c)
  case (Exists vid sty)
  then show ?thesis
    using assms by (simp add: checkSummaryExists_json_ok)
next
  case (Get vid sty)
  show ?thesis
  proof (cases "findIndex (same_key vid sty) (records_json w)")
    case None
    then show ?thesis
      using assms Get by (simp add: getCachedSummary_json_ok)
  next
    case (Some i)
    then have "i < length (records_json w)" by (simp add: findIndex_Some_iff)
    then show ?thesis
      using assms Get Some by (simp add: getCachedSummary_json_ok touch_wf)
  qed
next
  case (Put data)
  then show ?thesis using assms by (simp add: saveSummary_json_ok upsert_wf)
next
  case (ListRecent n)
  then show ?thesis
    using assms by (simp add: getRecentSummaries_json_ok)
qed

lemma run_json_Cons_snd:
  "snd (run_json ((now, c) # ops) w) = snd (run_json ops (snd (step_json now c w)))"
  by (cases "step_json now c w"; cases "run_json ops (snd (step_json now c w))") simp

lemma run_json_append_snd:
  "snd (run_json (ops @ ops') w) = snd (run_json ops' (snd (run_json ops w)))"
proof (induction ops arbitrary: w)
  case Nil
  then show ?case by simp
next
  case (Cons a ops)
  obtain now c where a: "a = (now, c)" by (cases a)
  show ?case
    unfolding a append_Cons run_json_Cons_snd by (rule Cons.IH)
qed

lemma run_json_wf:
  assumes "wf_records (records_json w)"
  shows "wf_records (records_json (snd (run_json ops w)))"
  using assms
proof (induction ops arbitrary: w)
  case Nil
  then show ?case by simp
next
  case (Cons a ops)
  obtain now c where a: "a = (now, c)" by (cases a)
  have "wf_records (records_json (snd (step_json now c w)))"
    using Cons.prems by (rule step_json_wf)
  then have "wf_records (records_json (snd (run_json ops (snd (step_json now c w)))))"
    by (rule Cons.IH)
  then show ?case unfolding a run_json_Cons_snd .
qed

lemma wf_records_empty: "wf_records (records_json empty_json)"
  by (simp add: wf_records_def records_json_def empty_json_def)

subsection \<open>The table after \<open>saveSummary\<close>\<close>

lemma select_where_find:
  "map_option snd (select_where vid sty t) = find (same_key vid sty) (map snd (rows t))"
proof -
  have "map_option snd (find (\<lambda>(i, r). P r) xs) = find P (map snd xs)" for P and xs :: "row list"
    by (induction xs) auto
  then show ?thesis by (simp add: select_where_def)
qed

lemma select_where_created_at:
  "(case select_where vid sty t of Some (i, existing) \<Rightarrow> created_at existing | None \<Rightarrow> now) =
   (case find (same_key vid sty) (map snd (rows t)) of Some r0 \<Rightarrow> created_at r0 | None \<Rightarrow> now)"
  unfolding select_where_find [symmetric]
  by (cases "select_where vid sty t") (simp_all add: split_beta)

lemma filter_fst_remove1:
  assumes "distinct (map fst xs)" and "v \<in> set xs"
  shows "filter (\<lambda>x. fst x \<noteq> fst v) xs = remove1 v xs"
  using assms
proof (induction xs)
  case Nil
  then show ?case by simp
next
  case (Cons x xs)
  show ?case
  proof (cases "x = v")
    case True
    have "fst v \<notin> fst ` set xs" using Cons.prems(1) True by simp
    then have "\<forall>y\<in>set xs. fst y \<noteq> fst v" by (metis imageI)
    then show ?thesis using True by simp
  next
    case False
    then have "v \<in> set xs" using Cons.prems(2) by simp
    then have "fst x \<noteq> fst v" using Cons.prems(1) by (metis distinct.simps(2) imageI list.simps(9) set_map)
    then show ?thesis using Cons \<open>v \<in> set xs\<close> False by simp
  qed
qed

lemma rows_insert_or_replace:
  "rows (insert_or_replace now data t) =
     filter (\<lambda>x. \<not> same_key (videoId data) (SummaryData.style data) (snd x)) (rows t) @
       [(Suc (last_id t),
         newRecord data
           (case find (same_key (videoId data) (SummaryData.style data)) (map snd (rows t)) of
              Some r0 \<Rightarrow> created_at r0 | None \<Rightarrow> now) now)]"
proof -
  have "filter (\<lambda>(i, r). \<not> same_key (videoId data) (SummaryData.style data) r) (rows t) =
      filter (\<lambda>x. \<not> same_key (videoId data) (SummaryData.style data) (snd x)) (rows t)"
    by (rule filter_cong) auto
  then show ?thesis
    by (simp add: insert_or_replace_def select_where_created_at Let_def)
qed

lemma last_id_insert_or_replace: "last_id (insert_or_replace now data t) = Suc (last_id t)"
  by (simp add: insert_or_replace_def Let_def)

lemma length_filter_key:
  assumes "distinct (map key_of (map snd xs))"
  shows "length (filter (\<lambda>x. \<not> same_key vid sty (snd x)) xs) =
           (if \<exists>r\<in>set (map snd xs). same_key vid sty r then length xs - 1 else length xs)"
proof (cases "\<exists>x\<in>set xs. same_key vid sty (snd x)")
  case True
  then obtain x where x: "x \<in> set xs" "same_key vid sty (snd x)" by blast
  have d: "distinct (map (key_of \<circ> snd) xs)" using assms by simp
  have "filter (\<lambda>y. (key_of \<circ> snd) y = (key_of \<circ> snd) x) xs = [x]"
    using d x(1)
  proof (induction xs)
    case Nil
    then show ?case by simp
  next
    case (Cons a xs)
    show ?case
    proof (cases "a = x")
      case True
      have "(key_of \<circ> snd) x \<notin> (key_of \<circ> snd) ` set xs" using Cons.prems(1) True by simp
      then have "\<forall>y\<in>set xs. (key_of \<circ> snd) y \<noteq> (key_of \<circ> snd) x" by (metis imageI)
      then have "filter (\<lambda>y. (key_of \<circ> snd) y = (key_of \<circ> snd) x) xs = []"
        by (simp add: filter_empty_conv)
      then show ?thesis using True by simp
    next
      case False
      then have "x \<in> set xs" using Cons.prems(2) by simp
      then have "(key_of \<circ> snd) a \<noteq> (key_of \<circ> snd) x"
        using Cons.prems(1) by (metis distinct.simps(2) imageI list.simps(9) set_map)
      then show ?thesis using Cons \<open>x \<in> set xs\<close> by simp
    qed
  qed
  moreover have "filter (\<lambda>y. same_key vid sty (snd y)) xs =
      filter (\<lambda>y. (key_of \<circ> snd) y = (key_of \<circ> snd) x) xs"
    using x(2) by (intro filter_cong) (auto simp: same_key_key_of)
  ultimately have "filter (\<lambda>y. same_key vid sty (snd y)) xs = [x]" by (rule ssubst [rotated])
  then have "length (filter (\<lambda>y. same_key vid sty (snd y)) xs) = 1" by simp
  then have "length (filter (\<lambda>x. \<not> same_key vid sty (snd x)) xs) = length xs - 1"
    using sum_length_filter_compl [of "\<lambda>y. same_key vid sty (snd y)" xs] by simp
  then show ?thesis using True by auto
next
  case False
  then have "filter (\<lambda>x. \<not> same_key vid sty (snd x)) xs = xs" by simp
  then show ?thesis using False by auto
qed

lemma wf_table_D:
  assumes "wf_table tb"
  shows "distinct (map fst (rows tb))" and "\<forall>i\<in>set (map fst (rows tb)). i \<le> last_id tb"
    and "distinct (map key_of (map snd (rows tb)))" and "length (rows tb) \<le> MAX_SUMMARIES"
  using assms by (simp_all add: wf_table_def wf_records_def list_all_iff)

lemma wf_table_I:
  assumes "distinct (map fst (rows tb))" and "\<forall>i\<in>set (map fst (rows tb)). i \<le> last_id tb"
    and "distinct (map key_of (map snd (rows tb)))" and "length (rows tb) \<le> MAX_SUMMARIES"
  shows "wf_table tb"
  using assms by (simp add: wf_table_def wf_records_def list_all_iff)

text \<open>The state while \<open>saveSummary\<close> runs: well-formed but for the one row too many.\<close>

lemma insert_or_replace_props:
  assumes "wf_table tb" and tb1_def: "tb1 = insert_or_replace now data tb"
  shows "distinct (map fst (rows tb1))"
    and "\<forall>i\<in>set (map fst (rows tb1)). i \<le> last_id tb1"
    and "distinct (map key_of (map snd (rows tb1)))"
    and "length (rows tb1) =
           (if \<exists>r\<in>set (map snd (rows tb)). same_key (videoId data) (SummaryData.style data) r
            then length (rows tb) else Suc (length (rows tb)))"
proof -
  let ?P = "\<lambda>x. \<not> same_key (videoId data) (SummaryData.style data) (snd x)"
  let ?c = "case find (same_key (videoId data) (SummaryData.style data)) (map snd (rows tb)) of
              Some r0 \<Rightarrow> created_at r0 | None \<Rightarrow> now"
  have rows1: "rows tb1 = filter ?P (rows tb) @ [(Suc (last_id tb), newRecord data ?c now)]"
    unfolding tb1_def by (rule rows_insert_or_replace)
  have last1: "last_id tb1 = Suc (last_id tb)"
    unfolding tb1_def by (rule last_id_insert_or_replace)
  note w = wf_table_D [OF assms(1)]
  have "Suc (last_id tb) \<notin> fst ` set (filter ?P (rows tb))"
    using w(2) by force
  then show "distinct (map fst (rows tb1))"
    using w(1) by (simp add: rows1 distinct_map_filter)
  show "\<forall>i\<in>set (map fst (rows tb1)). i \<le> last_id tb1"
    using w(2) by (auto simp: rows1 last1)
  have "distinct (map (key_of \<circ> snd) (filter ?P (rows tb)))"
    using w(3) by (simp add: distinct_map_filter)
  moreover have "(videoId data, SummaryData.style data) \<notin> (key_of \<circ> snd) ` set (filter ?P (rows tb))"
    by (auto simp: same_key_key_of)
  ultimately show "distinct (map key_of (map snd (rows tb1)))"
    by (simp add: rows1 key_of_newRecord)
  show "length (rows tb1) =
           (if \<exists>r\<in>set (map snd (rows tb)). same_key (videoId data) (SummaryData.style data) r
            then length (rows tb) else Suc (length (rows tb)))"
  proof (cases "\<exists>r\<in>set (map snd (rows tb)). same_key (videoId data) (SummaryData.style data) r")
    case True
    then have "rows tb \<noteq> []" by auto
    then show ?thesis using True length_filter_key [OF w(3), of "videoId data" "SummaryData.style data"]
      by (simp add: rows1 Suc_pred del: set_map)
  next
    case False
    then show ?thesis using length_filter_key [OF w(3), of "videoId data" "SummaryData.style data"]
      by (simp add: rows1 del: set_map)
  qed
qed

lemma order_by_accessed_at_asc_snd:
  "order_by_accessed_at_asc t = sort_key (\<lambda>x. text_order (accessed_at (snd x))) (rows t)"
  by (simp add: order_by_accessed_at_asc_def split_def)

lemma rows_delete_oldest:
  "rows (delete_oldest n t) =
     filter (\<lambda>x. fst x \<notin> fst ` set (take n (sort_key (\<lambda>x. text_order (accessed_at (snd x))) (rows t))))
       (rows t)"
  by (simp add: delete_oldest_def order_by_accessed_at_asc_snd Let_def split_def)

lemma last_id_delete_oldest: "last_id (delete_oldest n t) = last_id t"
  by (simp add: delete_oldest_def Let_def)

lemma saved_table_no_overflow:
  assumes "wf_table tb"
    and "(\<exists>r\<in>set (map snd (rows tb)). same_key (videoId data) (SummaryData.style data) r) \<or>
         length (rows tb) < MAX_SUMMARIES"
  shows "saved_table now data tb = insert_or_replace now data tb"
proof -
  have "length (rows tb) \<le> MAX_SUMMARIES"
    using assms(1) by (rule wf_table_D)
  then have "length (rows (insert_or_replace now data tb)) \<le> MAX_SUMMARIES"
    using insert_or_replace_props(4) [OF assms(1) refl, of now data] assms(2)
    by (auto split: if_splits)
  then show ?thesis by (simp add: saved_table_def count_all_def Let_def)
qed

text \<open>
  The put that takes a full table over the capacity: the first of the rows in the order
  of the texts of \<open>accessed_at\<close>, the new one included, is deleted.
\<close>

lemma saved_table_overflow:
  assumes "wf_table tb"
    and "\<forall>r\<in>set (map snd (rows tb)). \<not> same_key (videoId data) (SummaryData.style data) r"
    and "length (rows tb) = MAX_SUMMARIES"
  shows "rows (saved_table now data tb) =
           remove1 (hd (sort_key (\<lambda>x. text_order (accessed_at (snd x)))
                      (rows tb @ [(Suc (last_id tb), newRecord data now now)])))
             (rows tb @ [(Suc (last_id tb), newRecord data now now)])"
    and "last_id (saved_table now data tb) = Suc (last_id tb)"
proof -
  let ?f = "\<lambda>x::row. text_order (accessed_at (snd x))"
  let ?new = "(Suc (last_id tb), newRecord data now now)"
  let ?s = "sort_key ?f (rows tb @ [?new])"
  let ?tb1 = "insert_or_replace now data tb"
  note w = wf_table_D [OF assms(1)]
  have none: "find (same_key (videoId data) (SummaryData.style data)) (map snd (rows tb)) = None"
    using assms(2) by (simp add: find_None_iff)
  have "filter (\<lambda>x. \<not> same_key (videoId data) (SummaryData.style data) (snd x)) (rows tb) = rows tb"
    using assms(2) by simp
  then have rows1: "rows ?tb1 = rows tb @ [?new]"
    by (simp add: rows_insert_or_replace none)
  have ids1: "distinct (map fst (rows tb @ [?new]))"
    using insert_or_replace_props(1) [OF assms(1) refl, of now data] by (simp only: rows1)
  have cnt: "count_all ?tb1 = Suc MAX_SUMMARIES"
    using assms(3) by (simp add: count_all_def rows1)
  have saved: "saved_table now data tb = delete_oldest 1 ?tb1"
    by (simp add: saved_table_def cnt Let_def)
  have sne: "?s \<noteq> []" by (rule sort_key_not_Nil) simp
  then have tk: "take 1 ?s = [hd ?s]" by (cases ?s) simp_all
  have v: "hd ?s \<in> set (rows tb @ [?new])" using hd_in_set [OF sne] by simp
  have "rows (delete_oldest 1 ?tb1) =
      filter (\<lambda>x. fst x \<notin> fst ` set (take 1 (sort_key ?f (rows ?tb1)))) (rows ?tb1)"
    by (rule rows_delete_oldest)
  also have "\<dots> = filter (\<lambda>x. fst x \<notin> fst ` set [hd ?s]) (rows tb @ [?new])"
    unfolding rows1 tk ..
  also have "\<dots> = filter (\<lambda>x. fst x \<noteq> fst (hd ?s)) (rows tb @ [?new])"
    by simp
  also have "\<dots> = remove1 (hd ?s) (rows tb @ [?new])"
    using ids1 v by (rule filter_fst_remove1)
  finally show "rows (saved_table now data tb) = remove1 (hd ?s) (rows tb @ [?new])"
    by (simp add: saved)
  show "last_id (saved_table now data tb) = Suc (last_id tb)"
    by (simp add: saved last_id_delete_oldest last_id_insert_or_replace)
qed


text \<open>When every stored row has a text after that of \<open>now\<close>, the new row is deleted.\<close>

lemma saved_table_behind:
  assumes "wf_table tb"
    and "\<forall>r\<in>set (map snd (rows tb)). \<not> same_key (videoId data) (SummaryData.style data) r"
    and "length (rows tb) = MAX_SUMMARIES"
    and "\<forall>r\<in>set (map snd (rows tb)). text_order now < text_order (accessed_at r)"
  shows "rows (saved_table now data tb) = rows tb"
proof -
  let ?f = "\<lambda>x::row. text_order (accessed_at (snd x))"
  let ?new = "(Suc (last_id tb), newRecord data now now)"
  have "\<forall>y\<in>set (rows tb). ?f ?new < ?f y"
    using assms(4) by (simp add: accessed_at_newRecord)
  then have "sort_key ?f (rows tb @ [?new]) = ?new # sort_key ?f (rows tb)"
    by (rule sort_key_snoc_min)
  then have hd_eq: "hd (sort_key ?f (rows tb @ [?new])) = ?new" by simp
  have "fst ?new \<notin> set (map fst (rows tb))"
    using wf_table_D(2) [OF assms(1)] by force
  then have "?new \<notin> set (rows tb)" by force
  then have "remove1 ?new (rows tb @ [?new]) = rows tb"
    by (simp add: remove1_append remove1_idem)
  then show ?thesis
    unfolding saved_table_overflow(1) [OF assms(1-3)] hd_eq .
qed

lemma saved_table_wf:
  assumes "wf_table tb"
  shows "wf_table (saved_table now data tb)"
proof (cases "(\<exists>r\<in>set (map snd (rows tb)). same_key (videoId data) (SummaryData.style data) r) \<or>
         length (rows tb) < MAX_SUMMARIES")
  case True
  note p = insert_or_replace_props [OF assms refl, of now data]
  have "length (rows tb) \<le> MAX_SUMMARIES"
    using assms by (rule wf_table_D)
  then have "length (rows (insert_or_replace now data tb)) \<le> MAX_SUMMARIES"
    using p(4) True by (auto split: if_splits)
  then show ?thesis
    unfolding saved_table_no_overflow [OF assms True]
    using p(1-3) by (intro wf_table_I)
next
  case False
  note w = wf_table_D [OF assms]
  from False have absent: "\<forall>r\<in>set (map snd (rows tb)). \<not> same_key (videoId data) (SummaryData.style data) r"
    and full: "length (rows tb) = MAX_SUMMARIES"
    using w(4) by auto
  let ?new = "(Suc (last_id tb), newRecord data now now)"
  let ?all = "rows tb @ [?new]"
  let ?v = "hd (sort_key (\<lambda>x. text_order (accessed_at (snd x))) ?all)"
  note s = saved_table_overflow [OF assms absent full, of now]
  note p = insert_or_replace_props [OF assms refl, of now data]
  have none: "find (same_key (videoId data) (SummaryData.style data)) (map snd (rows tb)) = None"
    using absent by (simp add: find_None_iff)
  have "filter (\<lambda>x. \<not> same_key (videoId data) (SummaryData.style data) (snd x)) (rows tb) = rows tb"
    using absent by simp
  then have rows1: "rows (insert_or_replace now data tb) = ?all"
    by (simp add: rows_insert_or_replace none)
  have last1: "last_id (insert_or_replace now data tb) = Suc (last_id tb)"
    by (rule last_id_insert_or_replace)
  have sub: "set (remove1 ?v ?all) \<subseteq> set ?all" by (rule set_remove1_subset)
  have v: "?v \<in> set ?all"
    using oldest_is_least [of ?all "\<lambda>x. text_order (accessed_at (snd x))"] by blast
  have d1: "distinct (map fst (remove1 ?v ?all))"
    using p(1) unfolding rows1 by (rule distinct_map_remove1)
  have "distinct (map (key_of \<circ> snd) ?all)" using p(3) unfolding rows1 by simp
  then have "distinct (map (key_of \<circ> snd) (remove1 ?v ?all))"
    by (rule distinct_map_remove1)
  then have d2: "distinct (map key_of (map snd (remove1 ?v ?all)))" by simp
  have b: "\<forall>i\<in>set (map fst (remove1 ?v ?all)). i \<le> Suc (last_id tb)"
    using p(2) sub unfolding rows1 last1 by auto
  have len: "length (remove1 ?v ?all) \<le> MAX_SUMMARIES"
    using full v by (simp add: length_remove1 del: remove1_append)
  show ?thesis
  proof (rule wf_table_I)
    show "distinct (map fst (rows (saved_table now data tb)))" unfolding s by (rule d1)
    show "\<forall>i\<in>set (map fst (rows (saved_table now data tb))). i \<le> last_id (saved_table now data tb)"
      unfolding s by (rule b)
    show "distinct (map key_of (map snd (rows (saved_table now data tb))))" unfolding s by (rule d2)
    show "length (rows (saved_table now data tb)) \<le> MAX_SUMMARIES" unfolding s by (rule len)
  qed
qed

lemma saveSummary_sqlite_ok:
  "saveSummary_sqlite False False False now data w =
     (Inr (), w\<lparr>db := saved_table now data (db w)\<rparr>)"
  by (simp add: saveSummary_sqlite_def saveSummary_try_def saved_table_def Let_def)

lemma getRecentSummaries_sqlite_ok:
  "getRecentSummaries_sqlite False limit w = (Inr (select_recent limit (db w)), w)"
  by (simp add: getRecentSummaries_sqlite_def)

lemma records_sqlite_db [simp]: "records_sqlite (w\<lparr>db := tb\<rparr>) = map snd (rows tb)"
  by (simp add: records_sqlite_def)

lemma update_accessed_at_wf:
  assumes "wf_table tb"
  shows "wf_table (update_accessed_at now vid sty tb)"
proof -
  let ?g = "\<lambda>r. if same_key vid sty r then r\<lparr>accessed_at := now\<rparr> else r"
  let ?tb' = "update_accessed_at now vid sty tb"
  note w = wf_table_D [OF assms]
  have same: "map key_of (map ?g xs) = map key_of xs" for xs
    by (induction xs) (simp_all add: key_of_def)
  have 1: "distinct (map fst (rows ?tb'))"
    using w(1) by (simp only: ids_update_accessed_at)
  have "last_id ?tb' = last_id tb" by (simp add: update_accessed_at_def)
  then have 2: "\<forall>i\<in>set (map fst (rows ?tb')). i \<le> last_id ?tb'"
    using w(2) by (simp only: ids_update_accessed_at)
  have 3: "distinct (map key_of (map snd (rows ?tb')))"
    using w(3) by (simp only: records_update_accessed_at same)
  have "length (map fst (rows ?tb')) \<le> MAX_SUMMARIES"
    using w(4) by (simp only: ids_update_accessed_at length_map)
  then have 4: "length (rows ?tb') \<le> MAX_SUMMARIES" by simp
  show ?thesis using 1 2 3 4 by (rule wf_table_I)
qed

lemma step_sqlite_wf:
  assumes "wf_table (db w)"
  shows "wf_table (db (snd (step_sqlite now c w)))"
proof (cases c)
  case (Exists vid sty)
  then show ?thesis
    using assms by (simp add: checkSummaryExists_sqlite_ok)
next
  case (Get vid sty)
  then show ?thesis
    using assms
    by (simp add: getCachedSummary_sqlite_ok update_accessed_at_wf split: option.splits)
next
  case (Put data)
  then show ?thesis using assms by (simp add: saveSummary_sqlite_ok saved_table_wf)
next
  case (ListRecent n)
  then show ?thesis
    using assms by (simp add: getRecentSummaries_sqlite_ok)
qed

lemma run_sqlite_Cons_snd:
  "snd (run_sqlite ((now, c) # ops) w) = snd (run_sqlite ops (snd (step_sqlite now c w)))"
  by (cases "step_sqlite now c w"; cases "run_sqlite ops (snd (step_sqlite now c w))") simp

lemma run_sqlite_append_snd:
  "snd (run_sqlite (ops @ ops') w) = snd (run_sqlite ops' (snd (run_sqlite ops w)))"
proof (induction ops arbitrary: w)
  case Nil
  then show ?case by simp
next
  case (Cons a ops)
  obtain now c where a: "a = (now, c)" by (cases a)
  show ?case
    unfolding a append_Cons run_sqlite_Cons_snd by (rule Cons.IH)
qed

lemma run_sqlite_wf:
  assumes "wf_table (db w)"
  shows "wf_table (db (snd (run_sqlite ops w)))"
  using assms
proof (induction ops arbitrary: w)
  case Nil
  then show ?case by simp
next
  case (Cons a ops)
  obtain now c where a: "a = (now, c)" by (cases a)
  have "wf_table (db (snd (step_sqlite now c w)))"
    using Cons.prems by (rule step_sqlite_wf)
  then have "wf_table (db (snd (run_sqlite ops (snd (step_sqlite now c w)))))"
    by (rule Cons.IH)
  then show ?case unfolding a run_sqlite_Cons_snd .
qed

lemma wf_table_empty: "wf_table (db empty_sqlite)"
  by (simp add: wf_table_def wf_records_def empty_sqlite_def)

text \<open>
  The same put, on the records: one of them, first in the order of the texts, goes; it
  is the new one exactly when every stored record has a text after that of \<open>now\<close>.
\<close>

lemma saved_table_overflow_records:
  assumes "wf_table tb"
    and "\<forall>r\<in>set (map snd (rows tb)). \<not> same_key (videoId data) (SummaryData.style data) r"
    and "length (rows tb) = MAX_SUMMARIES"
  shows "length (rows (saved_table now data tb)) = MAX_SUMMARIES \<and>
         (\<exists>v\<in>set (map snd (rows tb) @ [newRecord data now now]).
            mset (map snd (rows (saved_table now data tb))) =
              mset (map snd (rows tb) @ [newRecord data now now]) - {#v#} \<and>
            (\<forall>r\<in>set (map snd (rows tb) @ [newRecord data now now]).
               text_order (accessed_at v) \<le> text_order (accessed_at r))) \<and>
         (newRecord data now now \<in> set (map snd (rows (saved_table now data tb))) \<longleftrightarrow>
            (\<exists>r\<in>set (map snd (rows tb)). text_order (accessed_at r) \<le> text_order now))"
proof -
  let ?f = "\<lambda>x::row. text_order (accessed_at (snd x))"
  let ?n = "newRecord data now now"
  let ?new = "(Suc (last_id tb), ?n)"
  let ?all = "rows tb @ [?new]"
  let ?v = "hd (sort_key ?f ?all)"
  have rws: "rows (saved_table now data tb) = remove1 ?v ?all"
    using assms by (rule saved_table_overflow(1))
  have ne: "?all \<noteq> []" by simp
  have v: "?v \<in> set ?all" and least: "\<forall>r\<in>set ?all. ?f ?v \<le> ?f r"
    using oldest_is_least [OF ne, of ?f] by blast+
  have len: "length (remove1 ?v ?all) = MAX_SUMMARIES"
    using assms(3) v by (simp add: length_remove1 del: remove1_append)
  have "{#?v#} \<subseteq># mset ?all" using v by simp
  then have "image_mset snd (mset ?all - {#?v#}) = image_mset snd (mset ?all) - image_mset snd {#?v#}"
    by (rule image_mset_Diff)
  then have ms: "mset (map snd (remove1 ?v ?all)) =
      mset (map snd (rows tb) @ [?n]) - {#snd ?v#}"
    by simp
  have vin: "snd ?v \<in> set (map snd (rows tb) @ [?n])" using v by force
  have least': "\<forall>r\<in>set (map snd (rows tb) @ [?n]).
      text_order (accessed_at (snd ?v)) \<le> text_order (accessed_at r)"
    using least by force
  have ny: "?n \<notin> set (map snd (rows tb))"
    using assms(2) same_key_newRecord [of data now now] by blast
  have kept: "?n \<in> set (map snd (remove1 ?v ?all)) \<longleftrightarrow>
      (\<exists>r\<in>set (map snd (rows tb)). text_order (accessed_at r) \<le> text_order now)"
  proof (cases "\<forall>r\<in>set (map snd (rows tb)). text_order now < text_order (accessed_at r)")
    case True
    have "rows (saved_table now data tb) = rows tb"
      using assms True by (rule saved_table_behind)
    then have "remove1 ?v ?all = rows tb" using rws by simp
    then show ?thesis using ny True by (auto simp: not_le)
  next
    case False
    then obtain y where y: "y \<in> set (rows tb)" "?f y \<le> ?f ?new"
      by (auto simp: not_less accessed_at_newRecord)
    then have "\<exists>y\<in>set (rows tb). ?f y \<le> ?f ?new" by blast
    then have "?v = hd (sort_key ?f (rows tb))" by (rule hd_sort_snoc_not_min)
    moreover have "rows tb \<noteq> []" using y(1) by auto
    ultimately have "?v \<in> set (rows tb)" using oldest_is_least [of "rows tb" ?f] by simp
    then have "snd ?v \<in> set (map snd (rows tb))" by simp
    then have "snd ?v \<noteq> ?n" using ny by metis
    then have "?n \<in># mset (map snd (rows tb) @ [?n]) - {#snd ?v#}" by simp
    then have "?n \<in> set (map snd (remove1 ?v ?all))" using ms by (metis set_mset_mset)
    then show ?thesis using False by (auto simp: not_less)
  qed
  show ?thesis unfolding rws using len vin ms least' kept by blast
qed

lemma saved_table_new_mem:
  assumes "wf_table tb"
    and "(\<exists>r\<in>set (map snd (rows tb)). same_key (videoId data) (SummaryData.style data) r) \<or>
         length (rows tb) < MAX_SUMMARIES \<or>
         (\<exists>r\<in>set (map snd (rows tb)). text_order (accessed_at r) \<le> text_order now)"
  shows "newRecord data
           (case find (same_key (videoId data) (SummaryData.style data)) (map snd (rows tb)) of
              Some r0 \<Rightarrow> created_at r0 | None \<Rightarrow> now) now
         \<in> set (map snd (rows (saved_table now data tb)))"
proof (cases "(\<exists>r\<in>set (map snd (rows tb)). same_key (videoId data) (SummaryData.style data) r) \<or>
         length (rows tb) < MAX_SUMMARIES")
  case True
  show ?thesis
    unfolding saved_table_no_overflow [OF assms(1) True] rows_insert_or_replace by simp
next
  case False
  have "length (rows tb) \<le> MAX_SUMMARIES"
    using assms(1) by (rule wf_table_D)
  with False have absent: "\<forall>r\<in>set (map snd (rows tb)). \<not> same_key (videoId data) (SummaryData.style data) r"
    and full: "length (rows tb) = MAX_SUMMARIES"
    by auto
  have none: "find (same_key (videoId data) (SummaryData.style data)) (map snd (rows tb)) = None"
    using absent by (simp add: find_None_iff)
  have "\<exists>r\<in>set (map snd (rows tb)). text_order (accessed_at r) \<le> text_order now"
    using assms(2) False by blast
  then have "newRecord data now now \<in> set (map snd (rows (saved_table now data tb)))"
    using saved_table_overflow_records [OF assms(1) absent full, of now] by blast
  then show ?thesis unfolding none by simp
qed

subsection \<open>A put that does not overflow, and a store filled to the capacity\<close>

lemma filter_not_key_remove1:
  assumes "distinct (map key_of ys)" and "r \<in> set ys" and "same_key vid sty r"
  shows "filter (\<lambda>x. \<not> same_key vid sty x) ys = remove1 r ys"
  using assms(1,2)
proof (induction ys)
  case Nil
  then show ?case by simp
next
  case (Cons x xs)
  have kr: "key_of r = (vid, sty)" using assms(3) by (simp add: same_key_key_of)
  show ?case
  proof (cases "x = r")
    case True
    have "key_of r \<notin> key_of ` set xs" using Cons.prems(1) True by simp
    then have "\<forall>y\<in>set xs. key_of y \<noteq> key_of r" by (metis imageI)
    then have "\<forall>y\<in>set xs. \<not> same_key vid sty y"
      using kr by (simp add: same_key_key_of)
    then have "filter (\<lambda>x. \<not> same_key vid sty x) xs = xs" by simp
    then show ?thesis using True assms(3) by simp
  next
    case False
    then have mem: "r \<in> set xs" using Cons.prems(2) by simp
    have "key_of x \<notin> key_of ` set xs" using Cons.prems(1) by simp
    then have "key_of x \<noteq> key_of r" using mem by blast
    then have "\<not> same_key vid sty x" using kr by (simp add: same_key_key_of)
    moreover have "filter (\<lambda>x. \<not> same_key vid sty x) xs = remove1 r xs"
      using Cons.prems(1) mem by (intro Cons.IH) simp_all
    ultimately show ?thesis using False by simp
  qed
qed

text \<open>
  When the key is stored or there is room, the put deletes nothing but the record of
  that key, which the new one replaces.
\<close>

lemma upsert_no_overflow:
  assumes "wf_records xs"
    and "(\<exists>r\<in>set xs. same_key (videoId data) (SummaryData.style data) r) \<or>
         length xs < MAX_SUMMARIES"
  shows "mset (upsert now data xs) =
           mset (filter (\<lambda>r. \<not> same_key (videoId data) (SummaryData.style data) r) xs) +
           {#newRecord data
               (case find (same_key (videoId data) (SummaryData.style data)) xs of
                  Some r0 \<Rightarrow> created_at r0 | None \<Rightarrow> now) now#}"
proof (cases "findIndex (same_key (videoId data) (SummaryData.style data)) xs")
  case (Some i)
  then have i: "i < length xs" and ki: "same_key (videoId data) (SummaryData.style data) (xs ! i)"
    by (simp_all add: findIndex_Some_iff)
  have keys: "distinct (map key_of xs)" using assms(1) by (simp add: wf_records_def)
  have "filter (\<lambda>r. \<not> same_key (videoId data) (SummaryData.style data) r) xs = remove1 (xs ! i) xs"
    using keys _ ki by (rule filter_not_key_remove1) (simp add: i)
  then show ?thesis
    using i by (simp add: upsert_present [OF Some] findIndex_find Some mset_update)
next
  case None
  then have absent: "\<forall>r\<in>set xs. \<not> same_key (videoId data) (SummaryData.style data) r"
    by (simp add: findIndex_None_iff)
  then have "length xs < MAX_SUMMARIES" using assms(2) by blast
  moreover have "filter (\<lambda>r. \<not> same_key (videoId data) (SummaryData.style data) r) xs = xs"
    using absent by simp
  ultimately show ?thesis
    by (simp add: upsert_absent [OF absent] findIndex_find None)
qed

lemma saved_table_no_overflow_records:
  assumes "wf_table tb"
    and "(\<exists>r\<in>set (map snd (rows tb)). same_key (videoId data) (SummaryData.style data) r) \<or>
         length (rows tb) < MAX_SUMMARIES"
  shows "map snd (rows (saved_table now data tb)) =
           filter (\<lambda>r. \<not> same_key (videoId data) (SummaryData.style data) r) (map snd (rows tb)) @
           [newRecord data
               (case find (same_key (videoId data) (SummaryData.style data)) (map snd (rows tb)) of
                  Some r0 \<Rightarrow> created_at r0 | None \<Rightarrow> now) now]"
  unfolding saved_table_no_overflow [OF assms] rows_insert_or_replace
  by (simp add: filter_map comp_def)

lemma videoId_video: "videoId (video j) = videoId (video k) \<longleftrightarrow> j = k"
proof
  assume "videoId (video j) = videoId (video k)"
  then have "length (replicate j CHR ''v'') = length (replicate k CHR ''v'')"
    by (simp add: video_def)
  then show "j = k" by simp
qed simp

lemma style_video: "SummaryData.style (video k) = ''x''"
  by (simp add: video_def)

lemma puts_at_Suc: "puts_at t (Suc n) = puts_at t n @ [(t, Put (video n))]"
  by (simp add: puts_at_def)

lemma run_json_Put:
  "snd (run_json [(now, Put data)] w) = w\<lparr>db := Some (upsert now data (records_json w))\<rparr>"
  by (simp add: saveSummary_json_ok)

lemma run_sqlite_Put:
  "snd (run_sqlite [(now, Put data)] w) = w\<lparr>db := saved_table now data (db w)\<rparr>"
  by (simp add: saveSummary_sqlite_ok)

text \<open>
  The store after \<open>saveSummary\<close> for the videos \<open>0\<close> to \<open>n - 1\<close> at the instant \<open>t\<close>,
  from the empty store.
\<close>

lemma fill_json:
  "n \<le> MAX_SUMMARIES \<Longrightarrow>
     records_json (snd (run_json (puts_at t n) empty_json)) =
       map (\<lambda>k. newRecord (video k) t t) [0..<n]"
proof (induction n)
  case 0
  then show ?case by (simp add: puts_at_def records_json_def empty_json_def)
next
  case (Suc n)
  let ?xs = "map (\<lambda>k. newRecord (video k) t t) [0..<n]"
  have xs: "records_json (snd (run_json (puts_at t n) empty_json)) = ?xs"
    using Suc by simp
  have absent: "\<forall>r\<in>set ?xs. \<not> same_key (videoId (video n)) (SummaryData.style (video n)) r"
    by (auto simp: same_key_def newRecord_def videoId_video)
  have "upsert t (video n) ?xs = ?xs @ [newRecord (video n) t t]"
    using Suc.prems by (simp add: upsert_absent [OF absent])
  then show ?case
    unfolding puts_at_Suc run_json_append_snd run_json_Put xs by simp
qed

lemma fill_sqlite:
  "n \<le> MAX_SUMMARIES \<Longrightarrow>
     rows (db (snd (run_sqlite (puts_at t n) empty_sqlite))) =
       map (\<lambda>k. (Suc k, newRecord (video k) t t)) [0..<n] \<and>
     last_id (db (snd (run_sqlite (puts_at t n) empty_sqlite))) = n"
proof (induction n)
  case 0
  then show ?case by (simp add: puts_at_def empty_sqlite_def)
next
  case (Suc n)
  let ?tb = "db (snd (run_sqlite (puts_at t n) empty_sqlite))"
  let ?K = "same_key (videoId (video n)) (SummaryData.style (video n))"
  have rws: "rows ?tb = map (\<lambda>k. (Suc k, newRecord (video k) t t)) [0..<n]"
    and lst: "last_id ?tb = n"
    using Suc by simp_all
  have wft: "wf_table ?tb" using wf_table_empty by (rule run_sqlite_wf)
  have absent: "\<forall>r\<in>set (map snd (rows ?tb)). \<not> ?K r"
    unfolding rws by (auto simp: same_key_def newRecord_def videoId_video)
  have room: "(\<exists>r\<in>set (map snd (rows ?tb)). ?K r) \<or> length (rows ?tb) < MAX_SUMMARIES"
    using Suc.prems by (simp add: rws)
  have none: "find ?K (map snd (rows ?tb)) = None"
    using absent by (simp add: find_None_iff)
  have "filter (\<lambda>x. \<not> ?K (snd x)) (rows ?tb) = rows ?tb" using absent by simp
  then have "rows (saved_table t (video n) ?tb) = rows ?tb @ [(Suc n, newRecord (video n) t t)]"
    unfolding saved_table_no_overflow [OF wft room] rows_insert_or_replace none lst by simp
  moreover have "last_id (saved_table t (video n) ?tb) = Suc n"
    unfolding saved_table_no_overflow [OF wft room] last_id_insert_or_replace lst ..
  ultimately show ?case
    unfolding puts_at_Suc run_sqlite_append_snd run_sqlite_Put by (simp add: rws)
qed

text \<open>
  On the store so filled to the capacity, a put of another video at an earlier instant
  leaves the records that were there, and no other.
\<close>

lemma full_json:
  assumes "xs = records_json (snd (run_json (puts_at t MAX_SUMMARIES) empty_json))"
  shows "length xs = MAX_SUMMARIES"
    and "\<forall>r\<in>set xs. accessed_at r = t"
    and "MAX_SUMMARIES \<le> k \<Longrightarrow>
           \<forall>r\<in>set xs. \<not> same_key (videoId (video k)) (SummaryData.style (video k)) r"
  unfolding assms fill_json [OF order_refl]
  by (auto simp: same_key_def newRecord_def videoId_video)

lemma full_sqlite:
  assumes "tb = db (snd (run_sqlite (puts_at t MAX_SUMMARIES) empty_sqlite))"
  shows "length (rows tb) = MAX_SUMMARIES"
    and "\<forall>r\<in>set (map snd (rows tb)). accessed_at r = t"
    and "MAX_SUMMARIES \<le> k \<Longrightarrow>
           \<forall>r\<in>set (map snd (rows tb)). \<not> same_key (videoId (video k)) (SummaryData.style (video k)) r"
    and "wf_table tb"
proof -
  have rws: "rows tb = map (\<lambda>k. (Suc k, newRecord (video k) t t)) [0..<MAX_SUMMARIES]"
    unfolding assms using fill_sqlite [OF order_refl, of t] by blast
  show "length (rows tb) = MAX_SUMMARIES" unfolding rws by simp
  show "\<forall>r\<in>set (map snd (rows tb)). accessed_at r = t"
    unfolding rws by (auto simp: newRecord_def)
  show "\<forall>r\<in>set (map snd (rows tb)). \<not> same_key (videoId (video k)) (SummaryData.style (video k)) r"
    if "MAX_SUMMARIES \<le> k"
    unfolding rws using that by (auto simp: same_key_def newRecord_def videoId_video)
  show "wf_table tb" unfolding assms using wf_table_empty by (rule run_sqlite_wf)
qed

subsection \<open>Two calls of \<open>saveSummary\<close> with one key\<close>

lemma two_puts_json:
  assumes "wf_records xs"
    and "videoId d2 = videoId d1" and "SummaryData.style d2 = SummaryData.style d1"
    and "(\<exists>r\<in>set xs. same_key (videoId d1) (SummaryData.style d1) r) \<or>
         length xs < MAX_SUMMARIES \<or> (\<exists>r\<in>set xs. accessed_at r \<le> now1)"
  defines "c1 \<equiv> (case find (same_key (videoId d1) (SummaryData.style d1)) xs of
                    Some r0 \<Rightarrow> created_at r0 | None \<Rightarrow> now1)"
  shows "filter (same_key (videoId d1) (SummaryData.style d1)) (upsert now1 d1 xs) =
           [newRecord d1 c1 now1]"
    and "filter (same_key (videoId d1) (SummaryData.style d1)) (upsert now2 d2 (upsert now1 d1 xs)) =
           [newRecord d2 c1 now2]"
proof -
  let ?K = "same_key (videoId d1) (SummaryData.style d1)"
  let ?xs1 = "upsert now1 d1 xs"
  have wf1: "wf_records ?xs1" using assms(1) by (rule upsert_wf)
  have m1: "newRecord d1 c1 now1 \<in> set ?xs1"
    unfolding c1_def using assms(1,4) by (rule upsert_new_mem)
  have d1: "distinct (map key_of ?xs1)" using wf1 by (simp add: wf_records_def)
  show "filter ?K ?xs1 = [newRecord d1 c1 now1]"
    using d1 m1 same_key_newRecord by (rule same_key_unique(1))
  have f1: "find ?K ?xs1 = Some (newRecord d1 c1 now1)"
    using d1 m1 same_key_newRecord by (rule same_key_unique(2))
  have wf2: "wf_records (upsert now2 d2 ?xs1)" using wf1 by (rule upsert_wf)
  have "\<exists>r\<in>set ?xs1. same_key (videoId d2) (SummaryData.style d2) r"
    using m1 same_key_newRecord [of d1 c1 now1] by (auto simp: assms(2,3))
  then have "newRecord d2
           (case find (same_key (videoId d2) (SummaryData.style d2)) ?xs1 of
              Some r0 \<Rightarrow> created_at r0 | None \<Rightarrow> now2) now2 \<in> set (upsert now2 d2 ?xs1)"
    using wf1 by (intro upsert_new_mem) simp_all
  then have m2: "newRecord d2 c1 now2 \<in> set (upsert now2 d2 ?xs1)"
    by (simp add: assms(2,3) f1 newRecord_def)
  have k2: "?K (newRecord d2 c1 now2)"
    using same_key_newRecord [of d2 c1 now2] by (simp add: assms(2,3))
  have d2: "distinct (map key_of (upsert now2 d2 ?xs1))" using wf2 by (simp add: wf_records_def)
  show "filter ?K (upsert now2 d2 ?xs1) = [newRecord d2 c1 now2]"
    using d2 m2 k2 by (rule same_key_unique(1))
qed

lemma two_puts_sqlite:
  assumes "wf_table tb"
    and "videoId d2 = videoId d1" and "SummaryData.style d2 = SummaryData.style d1"
    and "(\<exists>r\<in>set (map snd (rows tb)). same_key (videoId d1) (SummaryData.style d1) r) \<or>
         length (rows tb) < MAX_SUMMARIES \<or>
         (\<exists>r\<in>set (map snd (rows tb)). text_order (accessed_at r) \<le> text_order now1)"
  defines "c1 \<equiv> (case find (same_key (videoId d1) (SummaryData.style d1)) (map snd (rows tb)) of
                    Some r0 \<Rightarrow> created_at r0 | None \<Rightarrow> now1)"
  shows "filter (same_key (videoId d1) (SummaryData.style d1))
           (map snd (rows (saved_table now1 d1 tb))) = [newRecord d1 c1 now1]"
    and "filter (same_key (videoId d1) (SummaryData.style d1))
           (map snd (rows (saved_table now2 d2 (saved_table now1 d1 tb)))) = [newRecord d2 c1 now2]"
proof -
  let ?K = "same_key (videoId d1) (SummaryData.style d1)"
  let ?tb1 = "saved_table now1 d1 tb"
  let ?tb2 = "saved_table now2 d2 ?tb1"
  have wf1: "wf_table ?tb1" using assms(1) by (rule saved_table_wf)
  have m1: "newRecord d1 c1 now1 \<in> set (map snd (rows ?tb1))"
    unfolding c1_def using assms(1,4) by (rule saved_table_new_mem)
  have d1: "distinct (map key_of (map snd (rows ?tb1)))"
    using wf1 by (rule wf_table_D)
  show "filter ?K (map snd (rows ?tb1)) = [newRecord d1 c1 now1]"
    using d1 m1 same_key_newRecord by (rule same_key_unique(1))
  have f1: "find ?K (map snd (rows ?tb1)) = Some (newRecord d1 c1 now1)"
    using d1 m1 same_key_newRecord by (rule same_key_unique(2))
  have wf2: "wf_table ?tb2" using wf1 by (rule saved_table_wf)
  have "\<exists>r\<in>set (map snd (rows ?tb1)). same_key (videoId d2) (SummaryData.style d2) r"
    unfolding assms(2,3) using m1 same_key_newRecord [of d1 c1 now1] by blast
  then have "newRecord d2
           (case find (same_key (videoId d2) (SummaryData.style d2)) (map snd (rows ?tb1)) of
              Some r0 \<Rightarrow> created_at r0 | None \<Rightarrow> now2) now2 \<in> set (map snd (rows ?tb2))"
    using wf1 by (intro saved_table_new_mem) simp_all
  then have m2: "newRecord d2 c1 now2 \<in> set (map snd (rows ?tb2))"
    by (simp add: assms(2,3) f1 newRecord_def)
  have k2: "?K (newRecord d2 c1 now2)"
    using same_key_newRecord [of d2 c1 now2] by (simp add: assms(2,3))
  have d2: "distinct (map key_of (map snd (rows ?tb2)))"
    using wf2 by (rule wf_table_D)
  show "filter ?K (map snd (rows ?tb2)) = [newRecord d2 c1 now2]"
    using d2 m2 k2 by (rule same_key_unique(1))
qed

subsection \<open>The two backends side by side\<close>

























text \<open>
  Claim C1, as stated, fails: the record just written is not always kept. Neither backend
  asks whether the clock has gone back. From the empty store, \<open>saveSummary\<close> for a hundred
  videos at the instant \<open>5\<close> fills the store; \<open>saveSummary\<close> for one more video at the
  instant \<open>1\<close> then writes a record that is the oldest of the hundred and one, and it is
  the one deleted: the store holds a hundred records, none of that video.
\<close>

theorem new_record_evicted_counterexample:
  "length (records_json (snd (run_json (puts_at 5 100 @ [(1, Put (video 100))]) empty_json))) = 100 \<and>
   filter (same_key (videoId (video 100)) (SummaryData.style (video 100)))
     (records_json (snd (run_json (puts_at 5 100 @ [(1, Put (video 100))]) empty_json))) = [] \<and>
   length (records_sqlite (snd (run_sqlite (puts_at 5 100 @ [(1, Put (video 100))]) empty_sqlite))) = 100 \<and>
   filter (same_key (videoId (video 100)) (SummaryData.style (video 100)))
     (records_sqlite (snd (run_sqlite (puts_at 5 100 @ [(1, Put (video 100))]) empty_sqlite))) = []"
proof -
  have c: "100 = MAX_SUMMARIES" by (simp add: MAX_SUMMARIES_def)
  let ?K = "same_key (videoId (video MAX_SUMMARIES)) (SummaryData.style (video MAX_SUMMARIES))"
  let ?xs = "records_json (snd (run_json (puts_at 5 MAX_SUMMARIES) empty_json))"
  let ?tb = "db (snd (run_sqlite (puts_at 5 MAX_SUMMARIES) empty_sqlite))"
  note j = full_json [OF refl, where t = 5]
  note s = full_sqlite [OF refl, where t = 5]
  have absent: "\<forall>r\<in>set ?xs. \<not> ?K r" using j(3) [OF order_refl] .
  have "\<forall>r\<in>set ?xs. (1 :: nat) < accessed_at r" using j(2) by simp
  then have up: "upsert 1 (video MAX_SUMMARIES) ?xs = sort_key accessed_at ?xs"
    using absent j(1) by (intro upsert_behind)
  have "filter ?K (sort_key accessed_at ?xs) = []"
    using absent by (simp add: filter_empty_conv)
  then have J: "length (upsert 1 (video MAX_SUMMARIES) ?xs) = MAX_SUMMARIES \<and>
      filter ?K (upsert 1 (video MAX_SUMMARIES) ?xs) = []"
    unfolding up using j(1) by simp
  have absent': "\<forall>r\<in>set (map snd (rows ?tb)). \<not> ?K r" using s(3) [OF order_refl] .
  have "\<forall>r\<in>set (map snd (rows ?tb)). text_order 1 < text_order (accessed_at r)"
    using s(2) by (simp add: text_order_def year_10000_def)
  then have rw: "rows (saved_table 1 (video MAX_SUMMARIES) ?tb) = rows ?tb"
    using s(4) absent' s(1) by (intro saved_table_behind)
  have "filter ?K (map snd (rows ?tb)) = []"
    using absent' by (simp only: filter_empty_conv not_False_eq_True)
  then have S: "length (map snd (rows (saved_table 1 (video MAX_SUMMARIES) ?tb))) = MAX_SUMMARIES \<and>
      filter ?K (map snd (rows (saved_table 1 (video MAX_SUMMARIES) ?tb))) = []"
    unfolding rw using s(1) by simp
  show ?thesis
    unfolding c run_json_append_snd run_sqlite_append_snd run_json_Put run_sqlite_Put
      records_json_db records_sqlite_db
    using J S by blast
qed

text \<open>
  Claim C1, amended. Whatever the clock reads, every store that a run from the empty store
  reaches has at most \<open>MAX_SUMMARIES\<close> records, no two of one key (\<open>wf_records\<close>,
  \<open>wf_table\<close>), and a \<open>saveSummary\<close> on such a store gives such a store again. When the key
  is stored or there is room, nothing is deleted but the record of that key, which the new
  one replaces. When the write takes the count over the capacity (the store was full and
  did not have the key), the count afterwards is exactly \<open>MAX_SUMMARIES\<close>: of the stored
  records and the new one, one record \<open>v\<close> is gone and all others are kept, and \<open>v\<close> is
  oldest among them: in the file backend no record has an earlier \<open>accessed_at\<close>, in the
  SQLite backend none has an \<open>accessed_at\<close> whose text comes earlier, which is the same
  for instants before the year 10000. The record just written is kept if and only if
  some stored record is not later than it in that order.
\<close>

theorem capacity_invariant:
  assumes "wf_records (records_json wj)" and "wf_table (db ws)"
    and "wj' = snd (saveSummary_json ReadsDatabase False now data wj)"
    and "ws' = snd (saveSummary_sqlite False False False now data ws)"
    and "new = newRecord data now now"
  shows
    "wf_records (records_json (snd (run_json ops empty_json))) \<and>
     length (records_json (snd (run_json ops empty_json))) \<le> MAX_SUMMARIES \<and>
     wf_table (db (snd (run_sqlite ops empty_sqlite))) \<and>
     length (records_sqlite (snd (run_sqlite ops empty_sqlite))) \<le> MAX_SUMMARIES \<and>
     wf_records (records_json wj') \<and> length (records_json wj') \<le> MAX_SUMMARIES \<and>
     ((\<exists>r\<in>set (records_json wj). same_key (videoId data) (SummaryData.style data) r) \<or>
      length (records_json wj) < MAX_SUMMARIES \<longrightarrow>
        mset (records_json wj') =
          mset (filter (\<lambda>r. \<not> same_key (videoId data) (SummaryData.style data) r)
                  (records_json wj)) +
          {#newRecord data
              (case find (same_key (videoId data) (SummaryData.style data)) (records_json wj) of
                 Some r0 \<Rightarrow> created_at r0 | None \<Rightarrow> now) now#}) \<and>
     (length (records_json wj) = MAX_SUMMARIES \<and>
      (\<forall>r\<in>set (records_json wj). \<not> same_key (videoId data) (SummaryData.style data) r) \<longrightarrow>
        length (records_json wj') = MAX_SUMMARIES \<and>
        (\<exists>v\<in>set (records_json wj @ [new]).
           mset (records_json wj') = mset (records_json wj @ [new]) - {#v#} \<and>
           (\<forall>r\<in>set (records_json wj @ [new]). accessed_at v \<le> accessed_at r)) \<and>
        (new \<in> set (records_json wj') \<longleftrightarrow>
           (\<exists>r\<in>set (records_json wj). accessed_at r \<le> now))) \<and>
     wf_table (db ws') \<and> length (records_sqlite ws') \<le> MAX_SUMMARIES \<and>
     ((\<exists>r\<in>set (records_sqlite ws). same_key (videoId data) (SummaryData.style data) r) \<or>
      length (records_sqlite ws) < MAX_SUMMARIES \<longrightarrow>
        mset (records_sqlite ws') =
          mset (filter (\<lambda>r. \<not> same_key (videoId data) (SummaryData.style data) r)
                  (records_sqlite ws)) +
          {#newRecord data
              (case find (same_key (videoId data) (SummaryData.style data)) (records_sqlite ws) of
                 Some r0 \<Rightarrow> created_at r0 | None \<Rightarrow> now) now#}) \<and>
     (length (records_sqlite ws) = MAX_SUMMARIES \<and>
      (\<forall>r\<in>set (records_sqlite ws). \<not> same_key (videoId data) (SummaryData.style data) r) \<longrightarrow>
        length (records_sqlite ws') = MAX_SUMMARIES \<and>
        (\<exists>v\<in>set (records_sqlite ws @ [new]).
           mset (records_sqlite ws') = mset (records_sqlite ws @ [new]) - {#v#} \<and>
           (\<forall>r\<in>set (records_sqlite ws @ [new]).
              text_order (accessed_at v) \<le> text_order (accessed_at r))) \<and>
        (new \<in> set (records_sqlite ws') \<longleftrightarrow>
           (\<exists>r\<in>set (records_sqlite ws). text_order (accessed_at r) \<le> text_order now))) \<and>
     (\<forall>a b. a < year_10000 \<and> b < year_10000 \<longrightarrow>
        (text_order a \<le> text_order b \<longleftrightarrow> a \<le> b))"
proof -
  let ?K = "same_key (videoId data) (SummaryData.style data)"
  have A1: "wf_records (records_json (snd (run_json ops empty_json)))"
    using wf_records_empty by (rule run_json_wf)
  then have A2: "length (records_json (snd (run_json ops empty_json))) \<le> MAX_SUMMARIES"
    by (simp add: wf_records_def)
  have A3: "wf_table (db (snd (run_sqlite ops empty_sqlite)))"
    using wf_table_empty by (rule run_sqlite_wf)
  then have A4: "length (records_sqlite (snd (run_sqlite ops empty_sqlite))) \<le> MAX_SUMMARIES"
    using wf_table_D(4) by (simp add: records_sqlite_def)
  have j: "records_json wj' = upsert now data (records_json wj)"
    by (simp add: assms(3) saveSummary_json_ok)
  have s: "db ws' = saved_table now data (db ws)"
    by (simp add: assms(4) saveSummary_sqlite_ok)
  have rs: "records_sqlite ws' = map snd (rows (saved_table now data (db ws)))"
    by (simp add: records_sqlite_def s)
  have rs0: "records_sqlite ws = map snd (rows (db ws))"
    by (simp add: records_sqlite_def)
  have J1: "wf_records (records_json wj')"
    unfolding j using assms(1) by (rule upsert_wf)
  then have J2: "length (records_json wj') \<le> MAX_SUMMARIES" by (simp add: wf_records_def)
  have J3: "mset (records_json wj') =
          mset (filter (\<lambda>r. \<not> ?K r) (records_json wj)) +
          {#newRecord data
              (case find ?K (records_json wj) of Some r0 \<Rightarrow> created_at r0 | None \<Rightarrow> now) now#}"
    if "(\<exists>r\<in>set (records_json wj). ?K r) \<or> length (records_json wj) < MAX_SUMMARIES"
    unfolding j using assms(1) that by (rule upsert_no_overflow)
  have J4: "length (records_json wj') = MAX_SUMMARIES \<and>
        (\<exists>v\<in>set (records_json wj @ [new]).
           mset (records_json wj') = mset (records_json wj @ [new]) - {#v#} \<and>
           (\<forall>r\<in>set (records_json wj @ [new]). accessed_at v \<le> accessed_at r)) \<and>
        (new \<in> set (records_json wj') \<longleftrightarrow>
           (\<exists>r\<in>set (records_json wj). accessed_at r \<le> now))"
    if "length (records_json wj) = MAX_SUMMARIES \<and> (\<forall>r\<in>set (records_json wj). \<not> ?K r)"
    unfolding j assms(5) using that by (intro upsert_overflow) simp_all
  have S1: "wf_table (db ws')"
    unfolding s using assms(2) by (rule saved_table_wf)
  then have S2: "length (records_sqlite ws') \<le> MAX_SUMMARIES"
    using wf_table_D(4) by (simp add: records_sqlite_def)
  have S3: "mset (records_sqlite ws') =
          mset (filter (\<lambda>r. \<not> ?K r) (records_sqlite ws)) +
          {#newRecord data
              (case find ?K (records_sqlite ws) of Some r0 \<Rightarrow> created_at r0 | None \<Rightarrow> now) now#}"
    if "(\<exists>r\<in>set (records_sqlite ws). ?K r) \<or> length (records_sqlite ws) < MAX_SUMMARIES"
  proof -
    from that have "(\<exists>r\<in>set (map snd (rows (db ws))). ?K r) \<or> length (rows (db ws)) < MAX_SUMMARIES"
      by (simp add: rs0)
    with assms(2) show ?thesis
      unfolding rs rs0 by (simp only: saved_table_no_overflow_records mset_append mset.simps)
  qed
  have S4: "length (records_sqlite ws') = MAX_SUMMARIES \<and>
        (\<exists>v\<in>set (records_sqlite ws @ [new]).
           mset (records_sqlite ws') = mset (records_sqlite ws @ [new]) - {#v#} \<and>
           (\<forall>r\<in>set (records_sqlite ws @ [new]).
              text_order (accessed_at v) \<le> text_order (accessed_at r))) \<and>
        (new \<in> set (records_sqlite ws') \<longleftrightarrow>
           (\<exists>r\<in>set (records_sqlite ws). text_order (accessed_at r) \<le> text_order now))"
    if "length (records_sqlite ws) = MAX_SUMMARIES \<and> (\<forall>r\<in>set (records_sqlite ws). \<not> ?K r)"
  proof -
    from that have absent: "\<forall>r\<in>set (map snd (rows (db ws))). \<not> ?K r"
      and full: "length (rows (db ws)) = MAX_SUMMARIES"
      by (simp_all add: rs0)
    show ?thesis
      unfolding rs rs0 assms(5)
      using saved_table_overflow_records [OF assms(2) absent full, of now] by simp
  qed
  have T: "\<forall>a b. a < year_10000 \<and> b < year_10000 \<longrightarrow> (text_order a \<le> text_order b \<longleftrightarrow> a \<le> b)"
    by (simp add: text_order_le_iff)
  show ?thesis using A1 A2 A3 A4 J1 J2 J3 J4 S1 S2 S3 S4 T by blast
qed

text \<open>
  The theorem at the store filled by a hundred calls at the instant \<open>5\<close>, and a
  \<open>saveSummary\<close> for one more video at the instant \<open>7\<close>: a hundred records are kept,
  the new one among them.
\<close>

theorem capacity_invariant_witness:
  "length (records_json (snd (saveSummary_json ReadsDatabase False 7 (video 100)
      (snd (run_json (puts_at 5 100) empty_json))))) = 100 \<and>
   newRecord (video 100) 7 7 \<in> set (records_json (snd (saveSummary_json ReadsDatabase False 7
      (video 100) (snd (run_json (puts_at 5 100) empty_json))))) \<and>
   length (records_sqlite (snd (saveSummary_sqlite False False False 7 (video 100)
      (snd (run_sqlite (puts_at 5 100) empty_sqlite))))) = 100 \<and>
   newRecord (video 100) 7 7 \<in> set (records_sqlite (snd (saveSummary_sqlite False False False 7
      (video 100) (snd (run_sqlite (puts_at 5 100) empty_sqlite)))))"
proof -
  have c: "100 = MAX_SUMMARIES" by (simp add: MAX_SUMMARIES_def)
  let ?wj = "snd (run_json (puts_at 5 MAX_SUMMARIES) empty_json)"
  let ?ws = "snd (run_sqlite (puts_at 5 MAX_SUMMARIES) empty_sqlite)"
  let ?d = "video MAX_SUMMARIES"
  note j = full_json [OF refl, where t = 5]
  note s = full_sqlite [OF refl, where t = 5]
  have wfj: "wf_records (records_json ?wj)" using wf_records_empty by (rule run_json_wf)
  have wfs: "wf_table (db ?ws)" by (rule s(4))
  have fullj: "length (records_json ?wj) = MAX_SUMMARIES \<and>
      (\<forall>r\<in>set (records_json ?wj). \<not> same_key (videoId ?d) (SummaryData.style ?d) r)"
    using j(1) j(3) [OF order_refl] by blast
  have fulls: "length (records_sqlite ?ws) = MAX_SUMMARIES \<and>
      (\<forall>r\<in>set (records_sqlite ?ws). \<not> same_key (videoId ?d) (SummaryData.style ?d) r)"
    using s(1) s(3) [OF order_refl] by (simp add: records_sqlite_def)
  have "records_json ?wj \<noteq> []" using j(1) MAX_SUMMARIES_pos by auto
  then obtain r where "r \<in> set (records_json ?wj)" by (cases "records_json ?wj") auto
  then have oldj: "\<exists>r\<in>set (records_json ?wj). accessed_at r \<le> 7" using j(2) by force
  have "records_sqlite ?ws \<noteq> []" using s(1) MAX_SUMMARIES_pos by (auto simp: records_sqlite_def)
  then obtain r' where r': "r' \<in> set (records_sqlite ?ws)" by (cases "records_sqlite ?ws") auto
  then have "r' \<in> set (map snd (rows (db ?ws)))" by (simp only: records_sqlite_def)
  then have "accessed_at r' = 5" using s(2) by blast
  then have "text_order (accessed_at r') \<le> text_order 7"
    by (simp add: text_order_def year_10000_def)
  then have olds: "\<exists>r\<in>set (records_sqlite ?ws). text_order (accessed_at r) \<le> text_order 7"
    using r' by blast
  note t = capacity_invariant [OF wfj wfs refl refl refl, where now = 7 and data = ?d]
  have J: "length (records_json (snd (saveSummary_json ReadsDatabase False 7 ?d ?wj))) = MAX_SUMMARIES \<and>
      newRecord ?d 7 7 \<in> set (records_json (snd (saveSummary_json ReadsDatabase False 7 ?d ?wj)))"
    using t fullj oldj by blast
  have S: "length (records_sqlite (snd (saveSummary_sqlite False False False 7 ?d ?ws))) = MAX_SUMMARIES \<and>
      newRecord ?d 7 7 \<in> set (records_sqlite (snd (saveSummary_sqlite False False False 7 ?d ?ws)))"
    using t fulls olds by blast
  show ?thesis unfolding c using J S by blast
qed

text \<open>
  Claim C3, as stated, fails: not for every store state. Neither backend asks whether the
  clock has gone back. On the store that a hundred calls of \<open>saveSummary\<close> at the instant
  \<open>5\<close> have filled, two calls for one more video, at the instants \<open>1\<close> and \<open>2\<close> and
  with different summaries, each write a record that is the oldest of the hundred and one
  and is deleted at once: no record of that key is left.
\<close>

theorem upsert_evicted_counterexample:
  "filter (same_key (videoId (video 100)) (SummaryData.style (video 100)))
     (records_json (snd (run_json
        (puts_at 5 100 @
         [(1, Put (video 100)), (2, Put ((video 100)\<lparr>SummaryData.summary := ''s2''\<rparr>))])
        empty_json))) = [] \<and>
   filter (same_key (videoId (video 100)) (SummaryData.style (video 100)))
     (records_sqlite (snd (run_sqlite
        (puts_at 5 100 @
         [(1, Put (video 100)), (2, Put ((video 100)\<lparr>SummaryData.summary := ''s2''\<rparr>))])
        empty_sqlite))) = []"
proof -
  have c: "100 = MAX_SUMMARIES" by (simp add: MAX_SUMMARIES_def)
  let ?d1 = "video MAX_SUMMARIES"
  let ?d2 = "(video MAX_SUMMARIES)\<lparr>SummaryData.summary := ''s2''\<rparr>"
  let ?K = "same_key (videoId ?d1) (SummaryData.style ?d1)"
  let ?xs = "records_json (snd (run_json (puts_at 5 MAX_SUMMARIES) empty_json))"
  let ?tb = "db (snd (run_sqlite (puts_at 5 MAX_SUMMARIES) empty_sqlite))"
  have k2: "videoId ?d2 = videoId ?d1" "SummaryData.style ?d2 = SummaryData.style ?d1"
    by simp_all
  note j = full_json [OF refl, where t = 5]
  note s = full_sqlite [OF refl, where t = 5]
  have absent: "\<forall>r\<in>set ?xs. \<not> ?K r" using j(3) [OF order_refl] .
  have "\<forall>r\<in>set ?xs. (1 :: nat) < accessed_at r" using j(2) by simp
  then have up1: "upsert 1 ?d1 ?xs = sort_key accessed_at ?xs"
    using absent j(1) by (intro upsert_behind)
  let ?xs1 = "sort_key accessed_at ?xs"
  have absent1: "\<forall>r\<in>set ?xs1. \<not> same_key (videoId ?d2) (SummaryData.style ?d2) r"
    unfolding k2 using absent by simp
  have "\<forall>r\<in>set ?xs1. (2 :: nat) < accessed_at r" using j(2) by simp
  then have up2: "upsert 2 ?d2 ?xs1 = sort_key accessed_at ?xs1"
    using absent1 j(1) by (intro upsert_behind) simp_all
  have J: "filter ?K (upsert 2 ?d2 (upsert 1 ?d1 ?xs)) = []"
    unfolding up1 up2 using absent by (simp add: filter_empty_conv)
  have absent': "\<forall>r\<in>set (map snd (rows ?tb)). \<not> ?K r" using s(3) [OF order_refl] .
  have "\<forall>r\<in>set (map snd (rows ?tb)). text_order 1 < text_order (accessed_at r)"
    using s(2) by (simp add: text_order_def year_10000_def)
  then have rw1: "rows (saved_table 1 ?d1 ?tb) = rows ?tb"
    using s(4) absent' s(1) by (intro saved_table_behind)
  let ?tb1 = "saved_table 1 ?d1 ?tb"
  have wf1: "wf_table ?tb1" using s(4) by (rule saved_table_wf)
  have a1: "\<forall>r\<in>set (map snd (rows ?tb1)). \<not> same_key (videoId ?d2) (SummaryData.style ?d2) r"
    unfolding rw1 k2 by (rule absent')
  have l1: "length (rows ?tb1) = MAX_SUMMARIES" unfolding rw1 by (rule s(1))
  have "\<forall>r\<in>set (map snd (rows ?tb1)). text_order 2 < text_order (accessed_at r)"
    unfolding rw1 using s(2) by (simp add: text_order_def year_10000_def)
  then have rw2: "rows (saved_table 2 ?d2 ?tb1) = rows ?tb1"
    using wf1 a1 l1 by (intro saved_table_behind)
  have "filter ?K (map snd (rows ?tb)) = []"
    using absent' by (simp only: filter_empty_conv not_False_eq_True)
  then have S: "filter ?K (map snd (rows (saved_table 2 ?d2 ?tb1))) = []"
    unfolding rw2 rw1 .
  show ?thesis
    unfolding c run_json_append_snd run_sqlite_append_snd
    using J S by (simp add: saveSummary_json_ok saveSummary_sqlite_ok)
qed

text \<open>
  Claim C3, amended. Take a store that a run can reach (at most \<open>MAX_SUMMARIES\<close> records,
  no two of one key) and two calls of \<open>saveSummary\<close> with the same key, at \<open>now1\<close> and
  then at \<open>now2\<close>, in which no call into the store fails. Let the record of the first
  call not be deleted at once: the store has the key already, or it has room, or some
  stored record is not later than \<open>now1\<close> (in \<open>accessed_at\<close> for the file backend, in
  the text of \<open>accessed_at\<close> for the SQLite backend). Then after each call the store holds
  exactly one record of that key. The \<open>created_at\<close> of the one after the second call is
  that of the one after the first call (which is that of the record the store already had
  for the key, or \<open>now1\<close> when it had none); its \<open>summary\<close>, \<open>title\<close> and
  \<open>video_url\<close> are those of the second call and its \<open>accessed_at\<close> is \<open>now2\<close>,
  whatever \<open>now2\<close> is. Otherwise the store holds no record of the key after the first
  call.
\<close>

theorem upsert_keeps_created_at:
  assumes "wf_records (records_json wj)" and "wf_table (db ws)"
    and "videoId d2 = videoId d1" and "SummaryData.style d2 = SummaryData.style d1"
    and "wj1 = snd (saveSummary_json ReadsDatabase False now1 d1 wj)"
    and "wj2 = snd (saveSummary_json ReadsDatabase False now2 d2 wj1)"
    and "ws1 = snd (saveSummary_sqlite False False False now1 d1 ws)"
    and "ws2 = snd (saveSummary_sqlite False False False now2 d2 ws1)"
  shows
    "((\<exists>r\<in>set (records_json wj). same_key (videoId d1) (SummaryData.style d1) r) \<or>
      length (records_json wj) < MAX_SUMMARIES \<or>
      (\<exists>r\<in>set (records_json wj). accessed_at r \<le> now1) \<longrightarrow>
      (\<exists>r1 r2.
        filter (same_key (videoId d1) (SummaryData.style d1)) (records_json wj1) = [r1] \<and>
        filter (same_key (videoId d1) (SummaryData.style d1)) (records_json wj2) = [r2] \<and>
        created_at r1 =
          (case find (same_key (videoId d1) (SummaryData.style d1)) (records_json wj) of
             Some r0 \<Rightarrow> created_at r0 | None \<Rightarrow> now1) \<and>
        created_at r2 = created_at r1 \<and>
        summary r2 = SummaryData.summary d2 \<and> title r2 = SummaryData.title d2 \<and>
        video_url r2 = videoUrl d2 \<and> accessed_at r2 = now2)) \<and>
     (\<not> ((\<exists>r\<in>set (records_json wj). same_key (videoId d1) (SummaryData.style d1) r) \<or>
         length (records_json wj) < MAX_SUMMARIES \<or>
         (\<exists>r\<in>set (records_json wj). accessed_at r \<le> now1)) \<longrightarrow>
      filter (same_key (videoId d1) (SummaryData.style d1)) (records_json wj1) = []) \<and>
     ((\<exists>r\<in>set (records_sqlite ws). same_key (videoId d1) (SummaryData.style d1) r) \<or>
      length (records_sqlite ws) < MAX_SUMMARIES \<or>
      (\<exists>r\<in>set (records_sqlite ws). text_order (accessed_at r) \<le> text_order now1) \<longrightarrow>
      (\<exists>r1 r2.
        filter (same_key (videoId d1) (SummaryData.style d1)) (records_sqlite ws1) = [r1] \<and>
        filter (same_key (videoId d1) (SummaryData.style d1)) (records_sqlite ws2) = [r2] \<and>
        created_at r1 =
          (case find (same_key (videoId d1) (SummaryData.style d1)) (records_sqlite ws) of
             Some r0 \<Rightarrow> created_at r0 | None \<Rightarrow> now1) \<and>
        created_at r2 = created_at r1 \<and>
        summary r2 = SummaryData.summary d2 \<and> title r2 = SummaryData.title d2 \<and>
        video_url r2 = videoUrl d2 \<and> accessed_at r2 = now2)) \<and>
     (\<not> ((\<exists>r\<in>set (records_sqlite ws). same_key (videoId d1) (SummaryData.style d1) r) \<or>
         length (records_sqlite ws) < MAX_SUMMARIES \<or>
         (\<exists>r\<in>set (records_sqlite ws). text_order (accessed_at r) \<le> text_order now1)) \<longrightarrow>
      filter (same_key (videoId d1) (SummaryData.style d1)) (records_sqlite ws1) = []) \<and>
     (\<forall>a b. a < year_10000 \<and> b < year_10000 \<longrightarrow>
        (text_order a \<le> text_order b \<longleftrightarrow> a \<le> b))"
proof -
  let ?K = "same_key (videoId d1) (SummaryData.style d1)"
  let ?cj = "case find ?K (records_json wj) of Some r0 \<Rightarrow> created_at r0 | None \<Rightarrow> now1"
  let ?cs = "case find ?K (map snd (rows (db ws))) of Some r0 \<Rightarrow> created_at r0 | None \<Rightarrow> now1"
  have j1: "records_json wj1 = upsert now1 d1 (records_json wj)"
    by (simp add: assms(5) saveSummary_json_ok)
  have j2: "records_json wj2 = upsert now2 d2 (upsert now1 d1 (records_json wj))"
    by (simp add: assms(6) saveSummary_json_ok j1)
  have s0: "records_sqlite ws = map snd (rows (db ws))"
    by (simp add: records_sqlite_def)
  have s1: "records_sqlite ws1 = map snd (rows (saved_table now1 d1 (db ws)))"
    by (simp add: assms(7) saveSummary_sqlite_ok)
  have s2: "records_sqlite ws2 =
      map snd (rows (saved_table now2 d2 (saved_table now1 d1 (db ws))))"
    by (simp add: assms(8) assms(7) saveSummary_sqlite_ok)
  have J: "\<exists>r1 r2.
        filter ?K (records_json wj1) = [r1] \<and>
        filter ?K (records_json wj2) = [r2] \<and>
        created_at r1 = ?cj \<and>
        created_at r2 = created_at r1 \<and>
        summary r2 = SummaryData.summary d2 \<and> title r2 = SummaryData.title d2 \<and>
        video_url r2 = videoUrl d2 \<and> accessed_at r2 = now2"
    if c: "(\<exists>r\<in>set (records_json wj). ?K r) \<or> length (records_json wj) < MAX_SUMMARIES \<or>
      (\<exists>r\<in>set (records_json wj). accessed_at r \<le> now1)"
  proof -
    note tj = two_puts_json [OF assms(1,3,4) c]
    have "filter ?K (records_json wj1) = [newRecord d1 ?cj now1] \<and>
          filter ?K (records_json wj2) = [newRecord d2 ?cj now2]"
      using tj by (simp add: j1 j2)
    then show ?thesis
      by (intro exI [of _ "newRecord d1 ?cj now1"] exI [of _ "newRecord d2 ?cj now2"])
        (simp add: newRecord_def)
  qed
  have J': "filter ?K (records_json wj1) = []"
    if c: "\<not> ((\<exists>r\<in>set (records_json wj). ?K r) \<or> length (records_json wj) < MAX_SUMMARIES \<or>
      (\<exists>r\<in>set (records_json wj). accessed_at r \<le> now1))"
  proof -
    have "length (records_json wj) \<le> MAX_SUMMARIES"
      using assms(1) by (simp add: wf_records_def)
    with c have absent: "\<forall>r\<in>set (records_json wj). \<not> ?K r"
      and full: "length (records_json wj) = MAX_SUMMARIES"
      and behind: "\<forall>r\<in>set (records_json wj). now1 < accessed_at r"
      by (auto simp: not_le)
    have "upsert now1 d1 (records_json wj) = sort_key accessed_at (records_json wj)"
      using absent full behind by (rule upsert_behind)
    then show ?thesis unfolding j1 using absent by (simp add: filter_empty_conv)
  qed
  have S: "\<exists>r1 r2.
        filter ?K (records_sqlite ws1) = [r1] \<and>
        filter ?K (records_sqlite ws2) = [r2] \<and>
        created_at r1 =
          (case find ?K (records_sqlite ws) of Some r0 \<Rightarrow> created_at r0 | None \<Rightarrow> now1) \<and>
        created_at r2 = created_at r1 \<and>
        summary r2 = SummaryData.summary d2 \<and> title r2 = SummaryData.title d2 \<and>
        video_url r2 = videoUrl d2 \<and> accessed_at r2 = now2"
    if c: "(\<exists>r\<in>set (records_sqlite ws). ?K r) \<or> length (records_sqlite ws) < MAX_SUMMARIES \<or>
      (\<exists>r\<in>set (records_sqlite ws). text_order (accessed_at r) \<le> text_order now1)"
  proof -
    from c have c': "(\<exists>r\<in>set (map snd (rows (db ws))). ?K r) \<or>
        length (rows (db ws)) < MAX_SUMMARIES \<or>
        (\<exists>r\<in>set (map snd (rows (db ws))). text_order (accessed_at r) \<le> text_order now1)"
      by (simp add: s0)
    note ts = two_puts_sqlite [OF assms(2,3,4) c']
    have "filter ?K (records_sqlite ws1) = [newRecord d1 ?cs now1] \<and>
          filter ?K (records_sqlite ws2) = [newRecord d2 ?cs now2]"
      using ts by (simp add: s1 s2)
    then show ?thesis
      by (intro exI [of _ "newRecord d1 ?cs now1"] exI [of _ "newRecord d2 ?cs now2"])
        (simp add: newRecord_def s0)
  qed
  have S': "filter ?K (records_sqlite ws1) = []"
    if c: "\<not> ((\<exists>r\<in>set (records_sqlite ws). ?K r) \<or> length (records_sqlite ws) < MAX_SUMMARIES \<or>
      (\<exists>r\<in>set (records_sqlite ws). text_order (accessed_at r) \<le> text_order now1))"
  proof -
    have "length (rows (db ws)) \<le> MAX_SUMMARIES"
      using assms(2) by (rule wf_table_D)
    with c have absent: "\<forall>r\<in>set (map snd (rows (db ws))). \<not> ?K r"
      and full: "length (rows (db ws)) = MAX_SUMMARIES"
      and behind: "\<forall>r\<in>set (map snd (rows (db ws))). text_order now1 < text_order (accessed_at r)"
      by (auto simp: not_le s0)
    have "rows (saved_table now1 d1 (db ws)) = rows (db ws)"
      using assms(2) absent full behind by (rule saved_table_behind)
    moreover have "filter ?K (map snd (rows (db ws))) = []"
      using absent by (simp only: filter_empty_conv not_False_eq_True)
    ultimately show ?thesis unfolding s1 by simp
  qed
  have T: "\<forall>a b. a < year_10000 \<and> b < year_10000 \<longrightarrow> (text_order a \<le> text_order b \<longleftrightarrow> a \<le> b)"
    by (simp add: text_order_le_iff)
  show ?thesis using J J' S S' T by blast
qed

text \<open>
  The theorem at the store filled by a hundred calls at the instant \<open>5\<close>, with a call
  for one more video at \<open>7\<close> and a second one for it, with another summary, at \<open>3\<close>.
\<close>

theorem upsert_keeps_created_at_witness:
  "filter (same_key (videoId (video 100)) (SummaryData.style (video 100)))
     (records_json (snd (saveSummary_json ReadsDatabase False 3
        ((video 100)\<lparr>SummaryData.summary := ''s2''\<rparr>)
        (snd (saveSummary_json ReadsDatabase False 7 (video 100)
           (snd (run_json (puts_at 5 100) empty_json))))))) =
     [newRecord ((video 100)\<lparr>SummaryData.summary := ''s2''\<rparr>) 7 3] \<and>
   filter (same_key (videoId (video 100)) (SummaryData.style (video 100)))
     (records_sqlite (snd (saveSummary_sqlite False False False 3
        ((video 100)\<lparr>SummaryData.summary := ''s2''\<rparr>)
        (snd (saveSummary_sqlite False False False 7 (video 100)
           (snd (run_sqlite (puts_at 5 100) empty_sqlite))))))) =
     [newRecord ((video 100)\<lparr>SummaryData.summary := ''s2''\<rparr>) 7 3]"
proof -
  have c: "100 = MAX_SUMMARIES" by (simp add: MAX_SUMMARIES_def)
  let ?d1 = "video MAX_SUMMARIES"
  let ?d2 = "(video MAX_SUMMARIES)\<lparr>SummaryData.summary := ''s2''\<rparr>"
  let ?K = "same_key (videoId ?d1) (SummaryData.style ?d1)"
  let ?wj = "snd (run_json (puts_at 5 MAX_SUMMARIES) empty_json)"
  let ?ws = "snd (run_sqlite (puts_at 5 MAX_SUMMARIES) empty_sqlite)"
  let ?wj2 = "snd (saveSummary_json ReadsDatabase False 3 ?d2
                (snd (saveSummary_json ReadsDatabase False 7 ?d1 ?wj)))"
  let ?ws2 = "snd (saveSummary_sqlite False False False 3 ?d2
                (snd (saveSummary_sqlite False False False 7 ?d1 ?ws)))"
  have k2: "videoId ?d2 = videoId ?d1" "SummaryData.style ?d2 = SummaryData.style ?d1"
    by simp_all
  note j = full_json [OF refl, where t = 5]
  note s = full_sqlite [OF refl, where t = 5]
  have wfj: "wf_records (records_json ?wj)" using wf_records_empty by (rule run_json_wf)
  have wfs: "wf_table (db ?ws)" by (rule s(4))
  have "records_json ?wj \<noteq> []" using j(1) MAX_SUMMARIES_pos by auto
  then obtain r where "r \<in> set (records_json ?wj)" by (cases "records_json ?wj") auto
  then have oldj: "\<exists>r\<in>set (records_json ?wj). accessed_at r \<le> 7" using j(2) by force
  have "records_sqlite ?ws \<noteq> []" using s(1) MAX_SUMMARIES_pos by (auto simp: records_sqlite_def)
  then obtain r' where r': "r' \<in> set (records_sqlite ?ws)" by (cases "records_sqlite ?ws") auto
  then have "r' \<in> set (map snd (rows (db ?ws)))" by (simp only: records_sqlite_def)
  then have "accessed_at r' = 5" using s(2) by blast
  then have "text_order (accessed_at r') \<le> text_order 7"
    by (simp add: text_order_def year_10000_def)
  then have olds: "\<exists>r\<in>set (records_sqlite ?ws). text_order (accessed_at r) \<le> text_order 7"
    using r' by blast
  have nonej: "find ?K (records_json ?wj) = None"
    using j(3) [OF order_refl] by (simp add: find_None_iff)
  have "\<forall>r\<in>set (records_sqlite ?ws). \<not> ?K r"
    using s(3) [OF order_refl] by (simp only: records_sqlite_def)
  then have nones: "find ?K (records_sqlite ?ws) = None"
    by (simp add: find_None_iff)
  note t = upsert_keeps_created_at [OF wfj wfs k2 refl refl refl refl, where ?now1.0 = 7 and ?now2.0 = 3]
  from t oldj obtain r2 where j2: "filter ?K (records_json ?wj2) = [r2]"
    "created_at r2 = (case find ?K (records_json ?wj) of Some r0 \<Rightarrow> created_at r0 | None \<Rightarrow> 7)"
    "summary r2 = SummaryData.summary ?d2" "title r2 = SummaryData.title ?d2"
    "video_url r2 = videoUrl ?d2" "accessed_at r2 = 3"
    by auto
  have "r2 \<in> set (filter ?K (records_json ?wj2))" by (simp only: j2(1) list.set_intros)
  then have "?K r2" by simp
  then have J: "r2 = newRecord ?d2 7 3"
    using j2(2-) by (cases r2) (simp add: nonej newRecord_def same_key_def)
  from t olds obtain q2 where q2: "filter ?K (records_sqlite ?ws2) = [q2]"
    "created_at q2 = (case find ?K (records_sqlite ?ws) of Some r0 \<Rightarrow> created_at r0 | None \<Rightarrow> 7)"
    "summary q2 = SummaryData.summary ?d2" "title q2 = SummaryData.title ?d2"
    "video_url q2 = videoUrl ?d2" "accessed_at q2 = 3"
    by auto
  have "q2 \<in> set (filter ?K (records_sqlite ?ws2))" by (simp only: q2(1) list.set_intros)
  then have "?K q2" by simp
  then have S: "q2 = newRecord ?d2 7 3"
    using q2(2-) by (cases q2) (simp add: nones newRecord_def same_key_def)
  show ?thesis unfolding c using j2(1) q2(1) J S by simp
qed

text \<open>
  Claim C7. When no call into the store fails, \<open>getCachedSummary\<close> on a miss returns
  nothing and leaves the world as it is. On a hit, the file backend writes the array back
  with \<open>accessed_at\<close> of the first record of that key set to \<open>now\<close>, every other
  field of it and every other record as before, and the SQLite backend updates
  \<open>accessed_at\<close> of the rows of that key to \<open>now\<close>, leaving their other columns, the
  other rows, the ids and the console as before. The new \<open>accessed_at\<close> is \<open>now\<close>,
  which is not before an instant \<open>t_before\<close> read before the call. (The file backend
  returns the record with the new \<open>accessed_at\<close>, the SQLite backend the row as it
  was selected, with its \<open>id\<close>.)
\<close>

theorem get_touches_accessed_at:
  assumes "t_before \<le> now"
  shows
    "((\<forall>r\<in>set (records_json w). \<not> same_key vid sty r) \<longrightarrow>
        getCachedSummary_json ReadsDatabase False now vid sty w = (Inr None, w)) \<and>
     ((\<exists>r\<in>set (records_json w). same_key vid sty r) \<longrightarrow>
        (\<exists>i<length (records_json w).
           same_key vid sty (records_json w ! i) \<and>
           (\<forall>j<i. \<not> same_key vid sty (records_json w ! j)) \<and>
           getCachedSummary_json ReadsDatabase False now vid sty w =
             (Inr (Some ((records_json w ! i)\<lparr>accessed_at := now\<rparr>)),
              w\<lparr>db := Some ((records_json w)[i := (records_json w ! i)\<lparr>accessed_at := now\<rparr>])\<rparr>) \<and>
           t_before \<le> accessed_at ((records_json w ! i)\<lparr>accessed_at := now\<rparr>))) \<and>
     ((\<forall>r\<in>set (records_sqlite w'). \<not> same_key vid sty r) \<longrightarrow>
        getCachedSummary_sqlite False False now vid sty w' = (Inr None, w')) \<and>
     ((\<exists>r\<in>set (records_sqlite w'). same_key vid sty r) \<longrightarrow>
        (\<exists>i<length (records_sqlite w').
           same_key vid sty (records_sqlite w' ! i) \<and>
           (\<forall>j<i. \<not> same_key vid sty (records_sqlite w' ! j)) \<and>
           fst (getCachedSummary_sqlite False False now vid sty w') =
             Inr (Some (rows (db w') ! i)) \<and>
           records_sqlite (snd (getCachedSummary_sqlite False False now vid sty w')) =
             map (\<lambda>r. if same_key vid sty r then r\<lparr>accessed_at := now\<rparr> else r)
               (records_sqlite w') \<and>
           map fst (rows (db (snd (getCachedSummary_sqlite False False now vid sty w')))) =
             map fst (rows (db w')) \<and>
           last_id (db (snd (getCachedSummary_sqlite False False now vid sty w'))) =
             last_id (db w') \<and>
           console (snd (getCachedSummary_sqlite False False now vid sty w')) = console w'))"
proof -
  have j_miss: "getCachedSummary_json ReadsDatabase False now vid sty w = (Inr None, w)"
    if "\<forall>r\<in>set (records_json w). \<not> same_key vid sty r"
    using that by (simp add: getCachedSummary_json_ok findIndex_None_iff [symmetric])
  have j_hit: "\<exists>i<length (records_json w).
           same_key vid sty (records_json w ! i) \<and>
           (\<forall>j<i. \<not> same_key vid sty (records_json w ! j)) \<and>
           getCachedSummary_json ReadsDatabase False now vid sty w =
             (Inr (Some ((records_json w ! i)\<lparr>accessed_at := now\<rparr>)),
              w\<lparr>db := Some ((records_json w)[i := (records_json w ! i)\<lparr>accessed_at := now\<rparr>])\<rparr>) \<and>
           t_before \<le> accessed_at ((records_json w ! i)\<lparr>accessed_at := now\<rparr>)"
    if "\<exists>r\<in>set (records_json w). same_key vid sty r"
  proof -
    from that have "findIndex (same_key vid sty) (records_json w) \<noteq> None"
      by (simp add: findIndex_None_iff)
    then obtain i where i: "findIndex (same_key vid sty) (records_json w) = Some i" by blast
    then have "i < length (records_json w) \<and> same_key vid sty (records_json w ! i) \<and>
        (\<forall>j<i. \<not> same_key vid sty (records_json w ! j))"
      by (simp add: findIndex_Some_iff)
    then show ?thesis using i assms by (auto simp: getCachedSummary_json_ok)
  qed
  have s_miss: "getCachedSummary_sqlite False False now vid sty w' = (Inr None, w')"
    if "\<forall>r\<in>set (records_sqlite w'). \<not> same_key vid sty r"
  proof -
    from that have "select_where vid sty (db w') = None"
      by (simp add: select_where_None_iff records_sqlite_def)
    then show ?thesis by (simp add: getCachedSummary_sqlite_ok)
  qed
  have s_hit: "\<exists>i<length (records_sqlite w').
           same_key vid sty (records_sqlite w' ! i) \<and>
           (\<forall>j<i. \<not> same_key vid sty (records_sqlite w' ! j)) \<and>
           fst (getCachedSummary_sqlite False False now vid sty w') =
             Inr (Some (rows (db w') ! i)) \<and>
           records_sqlite (snd (getCachedSummary_sqlite False False now vid sty w')) =
             map (\<lambda>r. if same_key vid sty r then r\<lparr>accessed_at := now\<rparr> else r)
               (records_sqlite w') \<and>
           map fst (rows (db (snd (getCachedSummary_sqlite False False now vid sty w')))) =
             map fst (rows (db w')) \<and>
           last_id (db (snd (getCachedSummary_sqlite False False now vid sty w'))) =
             last_id (db w') \<and>
           console (snd (getCachedSummary_sqlite False False now vid sty w')) = console w'"
    if "\<exists>r\<in>set (records_sqlite w'). same_key vid sty r"
  proof -
    from that have "select_where vid sty (db w') \<noteq> None"
      by (simp add: select_where_None_iff records_sqlite_def)
    then obtain r where r: "select_where vid sty (db w') = Some r" by blast
    then obtain i where i: "i < length (rows (db w'))" "r = rows (db w') ! i"
        "same_key vid sty (snd r)" "\<forall>j<i. \<not> same_key vid sty (snd (rows (db w') ! j))"
      using select_where_first by blast
    have run: "getCachedSummary_sqlite False False now vid sty w' =
        (Inr (Some r), w'\<lparr>db := update_accessed_at now vid sty (db w')\<rparr>)"
      using r by (simp add: getCachedSummary_sqlite_ok)
    have a: "i < length (records_sqlite w')"
      and b: "same_key vid sty (records_sqlite w' ! i)"
      and c: "\<forall>j<i. \<not> same_key vid sty (records_sqlite w' ! j)"
      and d: "r = rows (db w') ! i"
      using i by (simp_all add: records_sqlite_def)
    have e: "last_id (update_accessed_at now vid sty (db w')) = last_id (db w')"
      by (simp add: update_accessed_at_def)
    have f: "records_sqlite (w'\<lparr>db := update_accessed_at now vid sty (db w')\<rparr>) =
        map (\<lambda>r. if same_key vid sty r then r\<lparr>accessed_at := now\<rparr> else r) (records_sqlite w')"
      by (simp add: records_sqlite_def records_update_accessed_at del: map_map)
    show ?thesis
      unfolding run fst_conv snd_conv
      using a b c d e f by (intro exI [of _ i]) (simp add: ids_update_accessed_at)
  qed
  show ?thesis using j_miss j_hit s_miss s_hit by blast
qed

text \<open>
  The theorem at a hit on the second record of a file, and at a miss and a hit on a table
  of one row, with \<open>now = 7\<close> and \<open>t_before = 5\<close>.
\<close>

theorem get_touches_accessed_at_witness:
  "getCachedSummary_json ReadsDatabase False 7 ''a'' ''x''
      \<lparr>db = Some [\<lparr>video_id = ''b'', video_url = ''u'', title = ''t'', summary = ''s'',
                     style = ''x'', created_at = 2, accessed_at = 3\<rparr>,
                  \<lparr>video_id = ''a'', video_url = ''u'', title = ''t'', summary = ''s'',
                     style = ''x'', created_at = 1, accessed_at = 1\<rparr>], console = []\<rparr> =
     (Inr (Some \<lparr>video_id = ''a'', video_url = ''u'', title = ''t'', summary = ''s'',
                     style = ''x'', created_at = 1, accessed_at = 7\<rparr>),
      \<lparr>db = Some [\<lparr>video_id = ''b'', video_url = ''u'', title = ''t'', summary = ''s'',
                     style = ''x'', created_at = 2, accessed_at = 3\<rparr>,
                  \<lparr>video_id = ''a'', video_url = ''u'', title = ''t'', summary = ''s'',
                     style = ''x'', created_at = 1, accessed_at = 7\<rparr>], console = []\<rparr>) \<and>
   getCachedSummary_sqlite False False 7 ''c'' ''x''
      \<lparr>db = \<lparr>rows = [(1, \<lparr>video_id = ''a'', video_url = ''u'', title = ''t'', summary = ''s'',
                     style = ''x'', created_at = 1, accessed_at = 1\<rparr>)], last_id = 1\<rparr>,
       console = []\<rparr> =
     (Inr None,
      \<lparr>db = \<lparr>rows = [(1, \<lparr>video_id = ''a'', video_url = ''u'', title = ''t'', summary = ''s'',
                     style = ''x'', created_at = 1, accessed_at = 1\<rparr>)], last_id = 1\<rparr>,
       console = []\<rparr>) \<and>
   records_sqlite (snd (getCachedSummary_sqlite False False 7 ''a'' ''x''
      \<lparr>db = \<lparr>rows = [(1, \<lparr>video_id = ''a'', video_url = ''u'', title = ''t'', summary = ''s'',
                     style = ''x'', created_at = 1, accessed_at = 1\<rparr>)], last_id = 1\<rparr>,
       console = []\<rparr>)) =
     [\<lparr>video_id = ''a'', video_url = ''u'', title = ''t'', summary = ''s'',
                     style = ''x'', created_at = 1, accessed_at = 7\<rparr>]"
proof -
  let ?a = "\<lparr>video_id = ''a'', video_url = ''u'', title = ''t'', summary = ''s'',
                     style = ''x'', created_at = 1, accessed_at = 1\<rparr>"
  let ?b = "\<lparr>video_id = ''b'', video_url = ''u'', title = ''t'', summary = ''s'',
                     style = ''x'', created_at = 2, accessed_at = 3\<rparr>"
  let ?wj = "\<lparr>db = Some [?b, ?a], console = [] :: string list\<rparr>"
  let ?ws = "\<lparr>db = \<lparr>rows = [(1 :: nat, ?a)], last_id = 1\<rparr>, console = [] :: string list\<rparr>"
  have le: "(5 :: nat) \<le> 7" by simp
  have hit_j: "\<exists>r\<in>set (records_json ?wj). same_key ''a'' ''x'' r"
    by (simp add: records_json_def same_key_def)
  have miss_s: "\<forall>r\<in>set (records_sqlite ?ws). \<not> same_key ''c'' ''x'' r"
    by (simp add: records_sqlite_def same_key_def)
  have hit_s: "\<exists>r\<in>set (records_sqlite ?ws). same_key ''a'' ''x'' r"
    by (simp add: records_sqlite_def same_key_def)
  from get_touches_accessed_at [OF le, of ?wj "''a''" "''x''" ?ws] hit_j
  obtain i where i: "i < length (records_json ?wj)" "same_key ''a'' ''x'' (records_json ?wj ! i)"
    and run_j: "getCachedSummary_json ReadsDatabase False 7 ''a'' ''x'' ?wj =
             (Inr (Some ((records_json ?wj ! i)\<lparr>accessed_at := 7\<rparr>)),
              ?wj\<lparr>db := Some ((records_json ?wj)[i := (records_json ?wj ! i)\<lparr>accessed_at := 7\<rparr>])\<rparr>)"
    by blast
  have "i = 1"
    using i by (cases i) (simp_all add: records_json_def same_key_def)
  then have 1: "getCachedSummary_json ReadsDatabase False 7 ''a'' ''x'' ?wj =
     (Inr (Some (?a\<lparr>accessed_at := 7\<rparr>)), \<lparr>db = Some [?b, ?a\<lparr>accessed_at := 7\<rparr>], console = []\<rparr>)"
    using run_j by (simp add: records_json_def)
  have 2: "getCachedSummary_sqlite False False 7 ''c'' ''x'' ?ws = (Inr None, ?ws)"
    using get_touches_accessed_at [OF le, of ?wj "''c''" "''x''" ?ws] miss_s by blast
  have 3: "records_sqlite (snd (getCachedSummary_sqlite False False 7 ''a'' ''x'' ?ws)) =
             map (\<lambda>r. if same_key ''a'' ''x'' r then r\<lparr>accessed_at := 7\<rparr> else r)
               (records_sqlite ?ws)"
    using get_touches_accessed_at [OF le, of ?wj "''a''" "''x''" ?ws] hit_s by blast
  show ?thesis using 1 2 3 by (simp add: records_sqlite_def same_key_def)
qed

text \<open>
  Claim C8 fails on the code. \<open>saveSummary\<close> of the file backend has no \<open>try\<close> of its
  own: when the file parses to a value that has no array \<open>summaries\<close> (the file holds
  \<open>{}\<close>), \<open>db.summaries.findIndex\<close> throws a \<open>TypeError\<close>, which goes to the caller;
  nothing is logged and nothing is written. When the read throws, \<open>readDatabase\<close> logs it
  and returns the empty array, and the write that follows replaces the file by the new
  record alone: the records the file held are gone. In the SQLite backend the \<open>try\<close>
  covers the whole body, but the statements are committed one by one, so when the count
  after the insert fails, the inserted row stays.
\<close>

theorem put_raises_or_wipes:
  "saveSummary_json ReadsOther False 9
      \<lparr>videoId = ''b'', videoUrl = ''u'', title = ''t'', summary = ''s'', style = ''x''\<rparr>
      \<lparr>db = Some [\<lparr>video_id = ''a'', video_url = ''u'', title = ''t'', summary = ''s'',
                     style = ''x'', created_at = 1, accessed_at = 1\<rparr>],
       console = []\<rparr> =
     (Inl TypeError,
      \<lparr>db = Some [\<lparr>video_id = ''a'', video_url = ''u'', title = ''t'', summary = ''s'',
                     style = ''x'', created_at = 1, accessed_at = 1\<rparr>],
       console = []\<rparr>) \<and>
   saveSummary_json ReadThrows False 9
      \<lparr>videoId = ''b'', videoUrl = ''u'', title = ''t'', summary = ''s'', style = ''x''\<rparr>
      \<lparr>db = Some [\<lparr>video_id = ''a'', video_url = ''u'', title = ''t'', summary = ''s'',
                     style = ''x'', created_at = 1, accessed_at = 1\<rparr>],
       console = []\<rparr> =
     (Inr (),
      \<lparr>db = Some [\<lparr>video_id = ''b'', video_url = ''u'', title = ''t'', summary = ''s'',
                     style = ''x'', created_at = 9, accessed_at = 9\<rparr>],
       console = [''Error reading database file:'']\<rparr>) \<and>
   saveSummary_sqlite False True False 9
      \<lparr>videoId = ''b'', videoUrl = ''u'', title = ''t'', summary = ''s'', style = ''x''\<rparr>
      \<lparr>db = \<lparr>rows = [], last_id = 0\<rparr>, console = []\<rparr> =
     (Inr (),
      \<lparr>db = \<lparr>rows = [(1, \<lparr>video_id = ''b'', video_url = ''u'', title = ''t'', summary = ''s'',
                     style = ''x'', created_at = 9, accessed_at = 9\<rparr>)], last_id = 1\<rparr>,
       console = [''Error saving summary to SQLite database:'']\<rparr>)"
  by (simp add: cache_eval)

text \<open>
  What the two backends do keep of the claim. \<open>saveSummary\<close> of the SQLite backend returns
  normally whatever fails, and a failed insert leaves the table as it was, with the error
  logged. \<open>saveSummary\<close> of the file backend raises exactly when the file is there and
  holds a value without \<open>summaries\<close>; a write that fails is logged and leaves the file as
  it was.
\<close>

lemma saveSummary_sqlite_returns:
  "fst (saveSummary_sqlite insert_fails count_fails delete_fails now data w') = Inr ()"
  by (simp add: saveSummary_sqlite_def split: prod.splits sum.splits)

lemma saveSummary_sqlite_insert_fails:
  "snd (saveSummary_sqlite True count_fails delete_fails now data w') =
     w'\<lparr>console := console w' @ [''Error saving summary to SQLite database:'']\<rparr>"
  by (simp add: saveSummary_sqlite_def saveSummary_try_def console_error_def)

lemma saveSummary_json_raises_iff:
  "fst (saveSummary_json reading write_fails now data w) =
     (if reading = ReadsOther \<and> db w \<noteq> None then Inl TypeError else Inr ())"
  by (cases reading)
    (auto simp: saveSummary_json_def readDatabase_def read_file_def summaries_of_def
      split: option.splits)

lemma saveSummary_json_write_fails:
  assumes "reading = ReadsDatabase \<or> db w = None"
  shows "snd (saveSummary_json reading True now data w) =
           w\<lparr>console := console w @ [''Error writing to database file:'']\<rparr>"
  using assms
  by (auto simp: saveSummary_json_def readDatabase_def read_file_def summaries_of_def
      writeDatabase_def write_file_def console_error_def split: option.splits)

text \<open>
  After a read that throws, whatever the file held, it holds the new record alone.
\<close>

lemma saveSummary_json_read_throws:
  assumes "db w = Some xs"
  shows "saveSummary_json ReadThrows False now data w =
           (Inr (),
            \<lparr>db = Some [newRecord data now now],
             console = console w @ [''Error reading database file:'']\<rparr>)"
  using assms by (simp add: cache_eval)


text \<open>
  With two records accessed at the same instant the backends may also list (and, in a full
  store, evict) them in a different order: the file backend keeps them in the order of the
  array, where \<open>saveSummary\<close> replaces a record in place, and the SQLite backend in the
  order of \<open>id\<close>, where \<open>INSERT OR REPLACE\<close> gives the row a new one. SQL does not fix
  that order at all. So the amended claim is about clocks that strictly increase.
\<close>

lemma backends_tie_order:
  "fst (run_json
     [(5, Put \<lparr>videoId = ''a'', videoUrl = ''u'', title = ''t'', summary = ''s'', style = ''x''\<rparr>),
      (5, Put \<lparr>videoId = ''b'', videoUrl = ''u'', title = ''t'', summary = ''s'', style = ''x''\<rparr>),
      (5, Put \<lparr>videoId = ''a'', videoUrl = ''u'', title = ''t'', summary = ''s'', style = ''x''\<rparr>),
      (5, ListRecent 10)] empty_json) =
     [Inr Saved, Inr Saved, Inr Saved,
      Inr (Listed
        [\<lparr>video_id = ''a'', video_url = ''u'', title = ''t'', summary = ''s'', style = ''x'',
            created_at = 5, accessed_at = 5\<rparr>,
         \<lparr>video_id = ''b'', video_url = ''u'', title = ''t'', summary = ''s'', style = ''x'',
            created_at = 5, accessed_at = 5\<rparr>])] \<and>
   fst (run_sqlite
     [(5, Put \<lparr>videoId = ''a'', videoUrl = ''u'', title = ''t'', summary = ''s'', style = ''x''\<rparr>),
      (5, Put \<lparr>videoId = ''b'', videoUrl = ''u'', title = ''t'', summary = ''s'', style = ''x''\<rparr>),
      (5, Put \<lparr>videoId = ''a'', videoUrl = ''u'', title = ''t'', summary = ''s'', style = ''x''\<rparr>),
      (5, ListRecent 10)] empty_sqlite) =
     [Inr Saved, Inr Saved, Inr Saved,
      Inr (Listed
        [(2, \<lparr>video_id = ''b'', video_url = ''u'', title = ''t'', summary = ''s'', style = ''x'',
            created_at = 5, accessed_at = 5\<rparr>),
         (3, \<lparr>video_id = ''a'', video_url = ''u'', title = ''t'', summary = ''s'', style = ''x'',
            created_at = 5, accessed_at = 5\<rparr>)])]"
  by (simp add: cache_eval Let_def)

text \<open>
  From the year 10000 on the backends order the records differently as well: the file
  backend compares the instants, the SQLite backend the texts, and the text of
  \<open>+010000-01-01T00:00:00.000Z\<close> comes before that of \<open>9999-12-31T23:59:59.999Z\<close>. So
  the amended claim is about instants before the year 10000.
\<close>

lemma backends_year_10000_order:
  "fst (run_json
     [(253402300799999,
       Put \<lparr>videoId = ''a'', videoUrl = ''u'', title = ''t'', summary = ''s'', style = ''x''\<rparr>),
      (253402300800000,
       Put \<lparr>videoId = ''b'', videoUrl = ''u'', title = ''t'', summary = ''s'', style = ''x''\<rparr>),
      (253402300800001, ListRecent 1)] empty_json) =
     [Inr Saved, Inr Saved,
      Inr (Listed
        [\<lparr>video_id = ''b'', video_url = ''u'', title = ''t'', summary = ''s'', style = ''x'',
            created_at = 253402300800000, accessed_at = 253402300800000\<rparr>])] \<and>
   fst (run_sqlite
     [(253402300799999,
       Put \<lparr>videoId = ''a'', videoUrl = ''u'', title = ''t'', summary = ''s'', style = ''x''\<rparr>),
      (253402300800000,
       Put \<lparr>videoId = ''b'', videoUrl = ''u'', title = ''t'', summary = ''s'', style = ''x''\<rparr>),
      (253402300800001, ListRecent 1)] empty_sqlite) =
     [Inr Saved, Inr Saved,
      Inr (Listed
        [(1, \<lparr>video_id = ''a'', video_url = ''u'', title = ''t'', summary = ''s'', style = ''x'',
            created_at = 253402300799999, accessed_at = 253402300799999\<rparr>)])]"
  by (simp add: cache_eval Let_def)



text \<open>
  Claim C10. In either backend, \<open>checkSummaryExists\<close> returns whether the store holds a
  record with that key and leaves the world as it is: every record with all its fields,
  \<open>accessed_at\<close> among them. The store is the same even when the read fails. So a
  \<open>saveSummary\<close> after it, with the eviction it may do, runs as it would have run
  without it.
\<close>

theorem exists_is_pure_read:
  "checkSummaryExists_json ReadsDatabase vid sty w =
     (Inr (\<exists>r\<in>set (records_json w). same_key vid sty r), w) \<and>
   checkSummaryExists_sqlite False vid sty w' =
     (Inr (\<exists>r\<in>set (records_sqlite w'). same_key vid sty r), w') \<and>
   db (snd (checkSummaryExists_json f vid sty w)) = db w \<and>
   db (snd (checkSummaryExists_sqlite f' vid sty w')) = db w' \<and>
   saveSummary_json rf wrf now data (snd (checkSummaryExists_json ReadsDatabase vid sty w)) =
     saveSummary_json rf wrf now data w \<and>
   saveSummary_sqlite fi fc fd now data (snd (checkSummaryExists_sqlite False vid sty w')) =
     saveSummary_sqlite fi fc fd now data w'"
proof -
  have "db (snd (checkSummaryExists_json f vid sty w)) = db w"
    using readDatabase_db [of f w]
    by (cases "readDatabase f w") (simp add: checkSummaryExists_json_def split: sum.splits)
  moreover have "db (snd (checkSummaryExists_sqlite f' vid sty w')) = db w'"
    by (simp add: checkSummaryExists_sqlite_def)
  ultimately show ?thesis
    by (simp add: checkSummaryExists_json_ok checkSummaryExists_sqlite_ok)
qed

text \<open>
  The theorem at a store of one record, for its key and for another key.
\<close>

theorem exists_is_pure_read_witness:
  "checkSummaryExists_json ReadsDatabase ''a'' ''x''
      \<lparr>db = Some [\<lparr>video_id = ''a'', video_url = ''u'', title = ''t'', summary = ''s'',
                     style = ''x'', created_at = 1, accessed_at = 1\<rparr>], console = []\<rparr> =
     (Inr True,
      \<lparr>db = Some [\<lparr>video_id = ''a'', video_url = ''u'', title = ''t'', summary = ''s'',
                     style = ''x'', created_at = 1, accessed_at = 1\<rparr>], console = []\<rparr>) \<and>
   checkSummaryExists_sqlite False ''a'' ''y''
      \<lparr>db = \<lparr>rows = [(1, \<lparr>video_id = ''a'', video_url = ''u'', title = ''t'', summary = ''s'',
                     style = ''x'', created_at = 1, accessed_at = 1\<rparr>)], last_id = 1\<rparr>,
       console = []\<rparr> =
     (Inr False,
      \<lparr>db = \<lparr>rows = [(1, \<lparr>video_id = ''a'', video_url = ''u'', title = ''t'', summary = ''s'',
                     style = ''x'', created_at = 1, accessed_at = 1\<rparr>)], last_id = 1\<rparr>,
       console = []\<rparr>)"
  using exists_is_pure_read [of "''a''" "''x''"
      "\<lparr>db = Some [\<lparr>video_id = ''a'', video_url = ''u'', title = ''t'', summary = ''s'',
                     style = ''x'', created_at = 1, accessed_at = 1\<rparr>], console = []\<rparr>"]
    exists_is_pure_read [of "''a''" "''y''" _
      "\<lparr>db = \<lparr>rows = [(1, \<lparr>video_id = ''a'', video_url = ''u'', title = ''t'', summary = ''s'',
                     style = ''x'', created_at = 1, accessed_at = 1\<rparr>)], last_id = 1\<rparr>,
       console = []\<rparr>"]
  by (simp add: records_json_def records_sqlite_def same_key_def)

end
